theory Spec2Isabelle
  imports Main "HOL-Library.Finite_Map"
begin

section \<open>Data model\<close>

text \<open>
  A shallow embedding of \<^verbatim>\<open>response.go\<close> (the per-request \<^verbatim>\<open>gzipResponseWriter\<close>) and of
  \<^verbatim>\<open>Config.ResponseWriter\<close>. Go byte slices and strings are byte sequences, so both are
  \<open>string\<close>; Go's \<^verbatim>\<open>int\<close> is \<open>int\<close> (lengths never overflow here); a Go \<^verbatim>\<open>error\<close> that may be
  \<^verbatim>\<open>nil\<close> is an \<open>error option\<close>.
\<close>

type_synonym bytes = string

datatype error =
    ErrShortWrite                  \<comment> \<open>\<^verbatim>\<open>io.ErrShortWrite\<close>\<close>
  | ErrIO string                   \<comment> \<open>any error reported by the sink or by the compressor\<close>
  | ErrCloseWrite error            \<comment> \<open>the \<^verbatim>\<open>fmt.Errorf\<close> wrapping made by \<^verbatim>\<open>Close\<close>\<close>
  | ErrHijackNotSupported          \<comment> \<open>"http.Hijacker interface is not supported"\<close>

subsection \<open>HTTP headers\<close>

text \<open>
  \<^verbatim>\<open>http.Header\<close> is \<^verbatim>\<open>map[string][]string\<close>. \<^verbatim>\<open>Get\<close> returns the first value stored under the
  key, or the empty string; \<^verbatim>\<open>Set\<close> replaces the values by one value; \<^verbatim>\<open>Del\<close> removes the key.
  The three keys the writer uses are already in canonical form, so canonicalisation is the
  identity on them.
\<close>

type_synonym Header = "string \<rightharpoonup> string list"

definition Header_Get :: "Header \<Rightarrow> string \<Rightarrow> string" where
  "Header_Get h k = (case h k of Some (v # _) \<Rightarrow> v | _ \<Rightarrow> '''')"

definition Header_Set :: "Header \<Rightarrow> string \<Rightarrow> string \<Rightarrow> Header" where
  "Header_Set h k v = h(k \<mapsto> [v])"

definition Header_Del :: "Header \<Rightarrow> string \<Rightarrow> Header" where
  "Header_Del h k = h(k := None)"

text \<open>
  Modelled from the spec: the header-name constants \<^verbatim>\<open>contentEncoding\<close>, \<^verbatim>\<open>contentType\<close> and
  \<^verbatim>\<open>contentLength\<close> are declared in a file that is not among the sources; the spec calls them
  the content-encoding, content-type and content-length headers, and the tests read them
  back under these names.
\<close>

definition contentEncoding :: string where "contentEncoding = ''Content-Encoding''"
definition contentType :: string where "contentType = ''Content-Type''"
definition contentLength :: string where "contentLength = ''Content-Length''"

subsection \<open>\<^verbatim>\<open>strconv.Atoi\<close>\<close>

text \<open>
  \<^verbatim>\<open>Write\<close> reads the declared length with \<^verbatim>\<open>cl, _ = strconv.Atoi(...)\<close> and drops the error, so
  only the integer matters: 0 on a syntax error (empty string, a lone sign, a non-digit), the
  decimal value otherwise, clamped to the 64-bit range on overflow.
\<close>

definition isDigit :: "char \<Rightarrow> bool" where
  "isDigit c = (48 \<le> (of_char c :: nat) \<and> (of_char c :: nat) \<le> 57)"

fun digitsValue :: "int \<Rightarrow> string \<Rightarrow> int" where
  "digitsValue n [] = n"
| "digitsValue n (c # cs) = digitsValue (n * 10 + (of_char c - 48)) cs"

definition Atoi :: "string \<Rightarrow> int" where
  "Atoi s =
    (let neg = (s \<noteq> [] \<and> hd s = CHR ''-'');
         ds = (if s \<noteq> [] \<and> (hd s = CHR ''-'' \<or> hd s = CHR ''+'') then tl s else s)
     in if ds = [] \<or> \<not> list_all isDigit ds then 0
        else if neg then max (- (2 ^ 63)) (- digitsValue 0 ds)
        else min (2 ^ 63 - 1) (digitsValue 0 ds))"

subsection \<open>The underlying sink\<close>

text \<open>
  The real \<^verbatim>\<open>http.ResponseWriter\<close> is an external collaborator. It is modelled by what the
  writer can do to it and see of it: its header map, the calls it has received so far (in
  order), the optional interfaces it implements, and how it answers a \<^verbatim>\<open>Write\<close>. The answer
  \<open>(n, err)\<close> is any function of the calls received so far, the headers and the bytes, so
  short writes and I/O errors are covered.
\<close>

datatype capability = Flusher | Hijacker | CloseNotifier

datatype event = SWriteHeader int | SWrite bytes | SFlush | SHijack

record sink =
  header :: Header
  trace :: "event list"
  caps :: "capability set"
  respond :: "event list \<Rightarrow> Header \<Rightarrow> bytes \<Rightarrow> int \<times> error option"
  hijackErr :: "error option"

definition sinkWrite :: "sink \<Rightarrow> bytes \<Rightarrow> (int \<times> error option) \<times> sink" where
  "sinkWrite s b = (respond s (trace s) (header s) b, s\<lparr>trace := trace s @ [SWrite b]\<rparr>)"

definition sinkWriteHeader :: "sink \<Rightarrow> int \<Rightarrow> sink" where
  "sinkWriteHeader s c = s\<lparr>trace := trace s @ [SWriteHeader c]\<rparr>"

definition sinkFlush :: "sink \<Rightarrow> sink" where
  "sinkFlush s = s\<lparr>trace := trace s @ [SFlush]\<rparr>"

definition sinkHijack :: "sink \<Rightarrow> error option \<times> sink" where
  "sinkHijack s = (hijackErr s, s\<lparr>trace := trace s @ [SHijack]\<rparr>)"

text \<open>The bytes handed to the sink's \<^verbatim>\<open>Write\<close>, in order: the response body as emitted.\<close>

fun body :: "event list \<Rightarrow> bytes" where
  "body [] = []"
| "body (SWrite b # es) = b @ body es"
| "body (_ # es) = body es"

fun isWriteHeader :: "event \<Rightarrow> bool" where
  "isWriteHeader (SWriteHeader _) = True"
| "isWriteHeader _ = False"

subsection \<open>The compressor\<close>

text \<open>
  \<^verbatim>\<open>gzip.Writer\<close> (klauspost/compress) is external as well. After \<^verbatim>\<open>Reset(w.ResponseWriter)\<close> it
  holds the sink as an \<^verbatim>\<open>io.Writer\<close>, so all it can do to the sink is call \<^verbatim>\<open>Write\<close> and react to
  the answers. An operation of the compressor is therefore a program over that one
  instruction; \<open>runW\<close> runs it against the sink.
\<close>

datatype 'r wprog = Return 'r | WriteThen bytes "int \<times> error option \<Rightarrow> 'r wprog"

primrec runW :: "'r wprog \<Rightarrow> sink \<Rightarrow> 'r \<times> sink" where
  "runW (Return r) s = (r, s)"
| "runW (WriteThen b k) s = (case sinkWrite s b of (res, s') \<Rightarrow> runW (k res) s')"

record 'g gzipWriter =
  gzNewWriterLevel :: "int \<Rightarrow> 'g"
  gzReset :: "'g \<Rightarrow> 'g"
  gzWrite :: "'g \<Rightarrow> bytes \<Rightarrow> ((int \<times> error option) \<times> 'g) wprog"
  gzFlush :: "'g \<Rightarrow> (error option \<times> 'g) wprog"
  gzClose :: "'g \<Rightarrow> (error option \<times> 'g) wprog"

subsection \<open>Content types\<close>

record parsedContentType =
  mediaType :: string
  params :: "(string, string) fmap"

text \<open>
  \<^verbatim>\<open>equals\<close>, branch by branch. The \<^verbatim>\<open>range\<close> loop returns false at the first configured
  directive that the other map lacks or holds with another value, so it returns true exactly
  when every configured pair is in the other map.
\<close>

definition equals :: "parsedContentType \<Rightarrow> string \<Rightarrow> (string, string) fmap \<Rightarrow> bool" where
  "equals pct mediaType' params' =
    (if mediaType pct \<noteq> mediaType' then False
     else if fcard (fmdom (params pct)) = 0 then True
     else if fcard (fmdom (params pct)) \<noteq> fcard (fmdom params') then False
     else fmpred (\<lambda>k v. fmlookup params' k = Some v) (params pct))"

subsection \<open>Configuration and environment\<close>

text \<open>
  \<^verbatim>\<open>Config\<close>: the threshold, the level, the allow-list and the pool of compressors. \<^verbatim>\<open>sync.Pool\<close>
  is a bag; \<^verbatim>\<open>Get\<close> takes an element or calls \<^verbatim>\<open>New\<close> when the bag is empty.
\<close>

record 'g Config =
  minSize :: int
  level :: int
  contentTypes :: "parsedContentType list"
  pool :: "'g list"

text \<open>
  What \<^verbatim>\<open>response.go\<close> calls without defining it: the compressor's methods,
  \<^verbatim>\<open>http.DetectContentType\<close>, and \<^verbatim>\<open>handleContentType\<close>, a function of this package whose file is
  not among the sources. All three are parameters, so every theorem below holds for any
  compressor, any sniffer and any allow-list test.
\<close>

record 'g env =
  gzip :: "'g gzipWriter"
  DetectContentType :: "bytes \<Rightarrow> string"
  handleContentType :: "parsedContentType list \<Rightarrow> string \<Rightarrow> bool"

definition poolGet :: "'g env \<Rightarrow> 'g Config \<Rightarrow> 'g \<times> 'g Config" where
  "poolGet E c =
    (case pool c of
       [] \<Rightarrow> (gzNewWriterLevel (gzip E) (level c), c)
     | g # gs \<Rightarrow> (g, c\<lparr>pool := gs\<rparr>))"

definition poolPut :: "'g Config \<Rightarrow> 'g \<Rightarrow> 'g Config" where
  "poolPut c g = c\<lparr>pool := g # pool c\<rparr>"

subsection \<open>The per-request writer\<close>

text \<open>
  The struct \<^verbatim>\<open>gzipResponseWriter\<close>. \<open>buf\<close> is \<open>None\<close> for a \<^verbatim>\<open>nil\<close> slice: \<^verbatim>\<open>startPlain\<close> tests
  \<^verbatim>\<open>w.buf == nil\<close>, and \<^verbatim>\<open>append\<close> of no bytes to a \<^verbatim>\<open>nil\<close> slice is still \<^verbatim>\<open>nil\<close>.
\<close>

record 'g gzipResponseWriter =
  ResponseWriter :: sink
  cfg :: "'g Config"
  gw :: "'g option"
  code :: int
  buf :: "bytes option"
  ignore :: bool

definition len :: "bytes option \<Rightarrow> int" where
  "len b = (case b of None \<Rightarrow> 0 | Some xs \<Rightarrow> int (length xs))"

definition bytesOf :: "bytes option \<Rightarrow> bytes" where
  "bytesOf b = (case b of None \<Rightarrow> [] | Some xs \<Rightarrow> xs)"

definition appendBytes :: "bytes option \<Rightarrow> bytes \<Rightarrow> bytes option" where
  "appendBytes s b =
    (case s of
       None \<Rightarrow> (if b = [] then None else Some b)
     | Some xs \<Rightarrow> Some (xs @ b))"

subsection \<open>Operations\<close>

text \<open>
  \<^verbatim>\<open>Config.ResponseWriter\<close> builds the writer with every other field at its zero value. The
  value it returns is either the plain \<^verbatim>\<open>*gzipResponseWriter\<close> or, when the sink is an
  \<^verbatim>\<open>http.CloseNotifier\<close>, the \<^verbatim>\<open>gzipResponseWriterWithCloseNotify\<close> that embeds it.
\<close>

datatype 'g wrapper =
    GzipResponseWriter "'g gzipResponseWriter"
  | GzipResponseWriterWithCloseNotify "'g gzipResponseWriter"

definition newWriter :: "'g Config \<Rightarrow> sink \<Rightarrow> 'g gzipResponseWriter" where
  "newWriter c w =
    \<lparr>ResponseWriter = w, cfg = c, gw = None, code = 0, buf = None, ignore = False\<rparr>"

definition Config_ResponseWriter :: "'g Config \<Rightarrow> sink \<Rightarrow> 'g wrapper" where
  "Config_ResponseWriter c w =
    (if CloseNotifier \<in> caps w then GzipResponseWriterWithCloseNotify (newWriter c w)
     else GzipResponseWriter (newWriter c w))"

text \<open>
  The method set of each of the two types, read off the method declarations:
  \<^verbatim>\<open>*gzipResponseWriter\<close> declares \<^verbatim>\<open>Flush\<close> and \<^verbatim>\<open>Hijack\<close> (and the file asserts
  \<^verbatim>\<open>var _ http.Hijacker = &gzipResponseWriter{}\<close>); the other type adds \<^verbatim>\<open>CloseNotify\<close>.
\<close>

fun implements :: "'g wrapper \<Rightarrow> capability set" where
  "implements (GzipResponseWriter _) = {Flusher, Hijacker}"
| "implements (GzipResponseWriterWithCloseNotify _) = {Flusher, Hijacker, CloseNotifier}"

definition WriteHeader :: "'g gzipResponseWriter \<Rightarrow> int \<Rightarrow> 'g gzipResponseWriter" where
  "WriteHeader w c = (if code w = 0 then w\<lparr>code := c\<rparr> else w)"

text \<open>
  \<^verbatim>\<open>init\<close> takes a compressor from the pool, resets it onto the sink and stores it in \<open>gw\<close>;
  the model also returns it, for the \<^verbatim>\<open>w.gw.Write\<close> that follows in \<^verbatim>\<open>startGzip\<close>.
\<close>

definition init :: "'g env \<Rightarrow> 'g gzipResponseWriter \<Rightarrow> 'g \<times> 'g gzipResponseWriter" where
  "init E w =
    (case poolGet E (cfg w) of
       (g, c') \<Rightarrow> (gzReset (gzip E) g, w\<lparr>cfg := c', gw := Some (gzReset (gzip E) g)\<rparr>))"

text \<open>The \<^verbatim>\<open>if w.code != 0\<close> block that \<^verbatim>\<open>startGzip\<close> and \<^verbatim>\<open>startPlain\<close> both begin with.\<close>

definition emitCode :: "'g gzipResponseWriter \<Rightarrow> 'g gzipResponseWriter" where
  "emitCode w =
    (if code w \<noteq> 0
     then w\<lparr>ResponseWriter := sinkWriteHeader (ResponseWriter w) (code w), code := 0\<rparr>
     else w)"

definition setHeader :: "'g gzipResponseWriter \<Rightarrow> Header \<Rightarrow> 'g gzipResponseWriter" where
  "setHeader w h = w\<lparr>ResponseWriter := (ResponseWriter w)\<lparr>header := h\<rparr>\<rparr>"

definition startGzip :: "'g env \<Rightarrow> 'g gzipResponseWriter \<Rightarrow> error option \<times> 'g gzipResponseWriter" where
  "startGzip E w =
    (let w1 = setHeader w (Header_Set (header (ResponseWriter w)) contentEncoding ''gzip'');
         w2 = setHeader w1 (Header_Del (header (ResponseWriter w1)) contentLength);
         w3 = emitCode w2
     in if len (buf w3) > 0 then
          (case init E w3 of
             (g, w4) \<Rightarrow>
               (case runW (gzWrite (gzip E) g (bytesOf (buf w4))) (ResponseWriter w4) of
                  (((n, err), g'), s') \<Rightarrow>
                    (if err = None \<and> n < len (buf w4) then Some ErrShortWrite else err,
                     w4\<lparr>ResponseWriter := s', gw := Some g'\<rparr>)))
        else (None, w3))"

definition startPlain :: "'g gzipResponseWriter \<Rightarrow> error option \<times> 'g gzipResponseWriter" where
  "startPlain w =
    (let w1 = emitCode w;
         w2 = w1\<lparr>ignore := True\<rparr>
     in if buf w2 = None then (None, w2)
        else (case sinkWrite (ResponseWriter w2) (bytesOf (buf w2)) of
                ((n, err), s') \<Rightarrow>
                  (let w3 = w2\<lparr>ResponseWriter := s', buf := None\<rparr>
                   in (if err = None \<and> n < len (buf w3) then Some ErrShortWrite else err, w3))))"

text \<open>The tail that the two commits share in \<^verbatim>\<open>Write\<close>: \<^verbatim>\<open>return 0, err\<close> or \<^verbatim>\<open>return len(b), nil\<close>.\<close>

definition committed ::
  "bytes \<Rightarrow> error option \<times> 'g gzipResponseWriter \<Rightarrow> (int \<times> error option) \<times> 'g gzipResponseWriter" where
  "committed b r =
    (case r of
       (Some err, w') \<Rightarrow> ((0, Some err), w')
     | (None, w') \<Rightarrow> ((int (length b), None), w'))"

definition Write ::
  "'g env \<Rightarrow> 'g gzipResponseWriter \<Rightarrow> bytes \<Rightarrow> (int \<times> error option) \<times> 'g gzipResponseWriter" where
  "Write E w b =
    (case gw w of
       Some g \<Rightarrow>
         (case runW (gzWrite (gzip E) g b) (ResponseWriter w) of
            ((r, g'), s') \<Rightarrow> (r, w\<lparr>ResponseWriter := s', gw := Some g'\<rparr>))
     | None \<Rightarrow>
         if ignore w then
           (case sinkWrite (ResponseWriter w) b of (r, s') \<Rightarrow> (r, w\<lparr>ResponseWriter := s'\<rparr>))
         else
           (let w1 = w\<lparr>buf := appendBytes (buf w) b\<rparr>;
                cl = Atoi (Header_Get (header (ResponseWriter w1)) contentLength);
                ct = Header_Get (header (ResponseWriter w1)) contentType;
                ce = Header_Get (header (ResponseWriter w1)) contentEncoding
            in if ce = '''' \<and> (cl = 0 \<or> cl \<ge> minSize (cfg w1))
                    \<and> (ct = '''' \<or> handleContentType E (contentTypes (cfg w1)) ct) then
                 (if len (buf w1) < minSize (cfg w1) \<and> cl = 0 then ((int (length b), None), w1)
                  else if cl \<ge> minSize (cfg w1) \<or> len (buf w1) \<ge> minSize (cfg w1) then
                    (let ct' = (if ct = '''' then DetectContentType E (bytesOf (buf w1)) else ct);
                         w2 = (if ct = ''''
                               then setHeader w1 (Header_Set (header (ResponseWriter w1)) contentType ct')
                               else w1)
                     in if handleContentType E (contentTypes (cfg w2)) ct'
                        then committed b (startGzip E w2)
                        else committed b (startPlain w2))
                  else committed b (startPlain w1))
               else committed b (startPlain w1)))"

definition Close :: "'g env \<Rightarrow> 'g gzipResponseWriter \<Rightarrow> error option \<times> 'g gzipResponseWriter" where
  "Close E w =
    (if ignore w then (None, w)
     else case gw w of
       None \<Rightarrow> (case startPlain w of (err, w') \<Rightarrow> (map_option ErrCloseWrite err, w'))
     | Some g \<Rightarrow>
         (case runW (gzClose (gzip E) g) (ResponseWriter w) of
            ((err, g'), s') \<Rightarrow>
              (err, w\<lparr>ResponseWriter := s', cfg := poolPut (cfg w) g', gw := None\<rparr>)))"

definition Flush :: "'g env \<Rightarrow> 'g gzipResponseWriter \<Rightarrow> 'g gzipResponseWriter" where
  "Flush E w =
    (if gw w = None \<and> \<not> ignore w then w
     else
       (let w1 = (case gw w of
                    None \<Rightarrow> w
                  | Some g \<Rightarrow>
                      (case runW (gzFlush (gzip E) g) (ResponseWriter w) of
                         ((err, g'), s') \<Rightarrow> w\<lparr>ResponseWriter := s', gw := Some g'\<rparr>))
        in if Flusher \<in> caps (ResponseWriter w1)
           then w1\<lparr>ResponseWriter := sinkFlush (ResponseWriter w1)\<rparr>
           else w1))"

definition Hijack :: "'g gzipResponseWriter \<Rightarrow> error option \<times> 'g gzipResponseWriter" where
  "Hijack w =
    (if Hijacker \<in> caps (ResponseWriter w)
     then (case sinkHijack (ResponseWriter w) of (err, s') \<Rightarrow> (err, w\<lparr>ResponseWriter := s'\<rparr>))
     else (Some ErrHijackNotSupported, w))"

subsection \<open>A handler as the calls it makes\<close>

text \<open>
  What a handler does to the writer it was given is a sequence of calls; \<open>run\<close> performs
  them in order and collects what each \<^verbatim>\<open>Write\<close> returned. \<^verbatim>\<open>Header\<close> is promoted from the embedded
  \<^verbatim>\<open>http.ResponseWriter\<close>, so \<^verbatim>\<open>w.Header()\<close> is the sink's own map and a handler changes headers
  in the sink directly, without the writer seeing the call: \<open>CallHeader f\<close> is any such change
  (\<^verbatim>\<open>Set\<close>, \<^verbatim>\<open>Add\<close>, \<^verbatim>\<open>Del\<close>, an assignment to the map).
\<close>

datatype call = CallWrite bytes | CallWriteHeader int | CallFlush | CallHeader "Header \<Rightarrow> Header"

fun run ::
  "'g env \<Rightarrow> 'g gzipResponseWriter \<Rightarrow> call list \<Rightarrow> (int \<times> error option) list \<times> 'g gzipResponseWriter" where
  "run E w [] = ([], w)"
| "run E w (CallWrite b # cs) =
    (case Write E w b of (r, w') \<Rightarrow> (case run E w' cs of (rs, w'') \<Rightarrow> (r # rs, w'')))"
| "run E w (CallWriteHeader c # cs) = run E (WriteHeader w c) cs"
| "run E w (CallFlush # cs) = run E (Flush E w) cs"
| "run E w (CallHeader f # cs) = run E (setHeader w (f (header (ResponseWriter w)))) cs"

text \<open>
  Of a sequence of calls: the bytes written, the arguments of the \<^verbatim>\<open>Write\<close> calls, and what the
  handler's own header changes make of a header map.
\<close>

fun written :: "call list \<Rightarrow> bytes" where
  "written [] = []"
| "written (CallWrite b # cs) = b @ written cs"
| "written (_ # cs) = written cs"

fun writes :: "call list \<Rightarrow> bytes list" where
  "writes [] = []"
| "writes (CallWrite b # cs) = b # writes cs"
| "writes (_ # cs) = writes cs"

fun handlerHeaders :: "call list \<Rightarrow> Header \<Rightarrow> Header" where
  "handlerHeaders [] h = h"
| "handlerHeaders (CallHeader f # cs) h = handlerHeaders cs (f h)"
| "handlerHeaders (_ # cs) h = handlerHeaders cs h"

section \<open>Auxiliary definitions\<close>

text \<open>A shorter name for the embedded \<^verbatim>\<open>http.ResponseWriter\<close> field.\<close>

abbreviation "RW \<equiv> ResponseWriter"

text \<open>The \<^verbatim>\<open>WriteHeader\<close> calls among the calls a sink has received.\<close>

definition statusEvents :: "event list \<Rightarrow> event list" where
  "statusEvents es = filter isWriteHeader es"

text \<open>
  Two steps of \<^verbatim>\<open>Write\<close> that the proofs name: the writer after \<^verbatim>\<open>w.buf = append(w.buf, b...)\<close>,
  and the writer after the block that sniffs and sets a missing content type.
\<close>

definition buffered :: "'g gzipResponseWriter \<Rightarrow> bytes \<Rightarrow> 'g gzipResponseWriter" where
  "buffered w b = w\<lparr>buf := appendBytes (buf w) b\<rparr>"

definition sniffed :: "'g env \<Rightarrow> 'g gzipResponseWriter \<Rightarrow> 'g gzipResponseWriter" where
  "sniffed E w = (if Header_Get (header (RW w)) contentType = ''''
     then setHeader w (Header_Set (header (RW w)) contentType (DetectContentType E (bytesOf (buf w))))
     else w)"

text \<open>The body so far: what the sink has been handed, then what is still buffered.\<close>

definition outstanding :: "'g gzipResponseWriter \<Rightarrow> bytes" where
  "outstanding w = body (trace (RW w)) @ (if ignore w then [] else bytesOf (buf w))"

text \<open>
  The part of the guard of \<^verbatim>\<open>Write\<close> that reads the content encoding and the content type: no
  encoding is declared, and the content type is absent or accepted by the allow-list.
\<close>

definition compressible :: "'g env \<Rightarrow> 'g Config \<Rightarrow> Header \<Rightarrow> bool" where
  "compressible E c h \<longleftrightarrow>
     Header_Get h contentEncoding = []
   \<and> (Header_Get h contentType = [] \<or> handleContentType E (contentTypes c) (Header_Get h contentType))"

text \<open>
  The values a handler passes to \<^verbatim>\<open>WriteHeader\<close>, in order, and the first of them that is not 0
  (0 when there is none).
\<close>

fun statuses :: "call list \<Rightarrow> int list" where
  "statuses [] = []"
| "statuses (CallWriteHeader c # cs) = c # statuses cs"
| "statuses (_ # cs) = statuses cs"

fun firstStatus :: "int list \<Rightarrow> int" where
  "firstStatus [] = 0"
| "firstStatus (c # cs) = (if c \<noteq> 0 then c else firstStatus cs)"

text \<open>
  What any operation of the writer does to the pending status: it leaves the status and the
  \<^verbatim>\<open>WriteHeader\<close> calls of the sink alone, or it emits the pending non-zero status and clears it.
\<close>

definition statusStep :: "'g gzipResponseWriter \<Rightarrow> 'g gzipResponseWriter \<Rightarrow> bool" where
  "statusStep w w' \<longleftrightarrow>
     (statusEvents (trace (RW w')) = statusEvents (trace (RW w)) \<and> code w' = code w)
   \<or> (code w \<noteq> 0 \<and> code w' = 0
      \<and> statusEvents (trace (RW w')) = statusEvents (trace (RW w)) @ [SWriteHeader (code w)])"

text \<open>The status that is pending, or that will be once the calls are made.\<close>

definition pendingStatus :: "'g gzipResponseWriter \<Rightarrow> call list \<Rightarrow> int" where
  "pendingStatus w cs = (if code w \<noteq> 0 then code w else firstStatus (statuses cs))"

text \<open>The \<^verbatim>\<open>WriteHeader\<close> calls of \<open>new\<close> are those of \<open>old\<close>, then \<open>c\<close>, then any others.\<close>

definition emitsFirst :: "event list \<Rightarrow> event list \<Rightarrow> int \<Rightarrow> bool" where
  "emitsFirst old new c \<longleftrightarrow> (\<exists>rest. statusEvents new = statusEvents old @ SWriteHeader c # rest)"

text \<open>
  Concrete collaborators for the evaluations below. The stand-in compressor writes a two-byte
  header before its first output, the input reversed as its "compressed" form, and a trailer
  on \<^verbatim>\<open>Close\<close>.
\<close>

definition toyGzip :: "bool gzipWriter" where
  "toyGzip =
    \<lparr>gzNewWriterLevel = (\<lambda>_. False),
     gzReset = (\<lambda>_. False),
     gzWrite = (\<lambda>started b.
        WriteThen ((if started then [] else ''GZ'') @ rev b)
          (\<lambda>r. Return ((if snd r = None then int (length b) else 0, snd r), True))),
     gzFlush = (\<lambda>g. Return (None, g)),
     gzClose = (\<lambda>g. WriteThen ''END'' (\<lambda>r. Return (snd r, g)))\<rparr>"

text \<open>
  Modelled from the spec: \<^verbatim>\<open>handleContentType\<close> is called by \<^verbatim>\<open>Write\<close>, but the file that defines
  it is not among the sources. The spec: an empty allow-list matches everything; otherwise the
  answer is true iff some configured matcher equals the parsed candidate type. The parser is
  \<^verbatim>\<open>mime.ParseMediaType\<close>, a parameter here. Only the concrete environment \<open>testEnv\<close> uses this
  definition; the theorems hold for any \<open>handleContentType\<close>.
\<close>

definition handleContentType_spec ::
  "(string \<Rightarrow> (string \<times> (string, string) fmap) option) \<Rightarrow> parsedContentType list \<Rightarrow> string \<Rightarrow> bool" where
  "handleContentType_spec parse cts ct =
    (cts = [] \<or>
     (case parse ct of
        None \<Rightarrow> False
      | Some (mediaType', params') \<Rightarrow> list_ex (\<lambda>c. equals c mediaType' params') cts))"

text \<open>A parser for candidates that are a media type with no directive.\<close>

definition bareMediaType :: "string \<Rightarrow> (string \<times> (string, string) fmap) option" where
  "bareMediaType ct = Some (ct, fmempty)"

text \<open>The environment of the evaluations; its sniffer always answers \<^verbatim>\<open>text/plain; charset=utf-8\<close>.\<close>

definition testEnv :: "bool env" where
  "testEnv =
    \<lparr>gzip = toyGzip,
     DetectContentType = (\<lambda>_. ''text/plain; charset=utf-8''),
     handleContentType = handleContentType_spec bareMediaType\<rparr>"

text \<open>
  Configurations: a threshold of 1400 and one of 4, both with an empty allow-list, and a
  threshold of 1400 with an allow-list that holds \<^verbatim>\<open>application/json\<close> only.
\<close>

definition testCfg :: "bool Config" where
  "testCfg = \<lparr>minSize = 1400, level = - 1, contentTypes = [], pool = []\<rparr>"

definition smallCfg :: "bool Config" where
  "smallCfg = \<lparr>minSize = 4, level = - 1, contentTypes = [], pool = []\<rparr>"

definition jsonOnlyCfg :: "bool Config" where
  "jsonOnlyCfg =
    \<lparr>minSize = 1400, level = - 1,
     contentTypes = [\<lparr>mediaType = ''application/json'', params = fmempty\<rparr>], pool = []\<rparr>"

text \<open>
  A sink with empty headers and no optional capability that accepts every write in full; the
  same sink with a content encoding, or a content type, already declared; and one that accepts
  a single byte of every write and reports no error.
\<close>

definition okSink :: sink where
  "okSink =
    \<lparr>header = Map.empty, trace = [], caps = {},
     respond = (\<lambda>_ _ b. (int (length b), None)), hijackErr = None\<rparr>"

definition brSink :: sink where
  "brSink = okSink\<lparr>header := [contentEncoding \<mapsto> [''br'']]\<rparr>"

definition xmlSink :: sink where
  "xmlSink = okSink\<lparr>header := [contentType \<mapsto> [''text/xml'']]\<rparr>"

definition shortSink :: sink where
  "shortSink = okSink\<lparr>respond := (\<lambda>_ _ _. (1, None))\<rparr>"

text \<open>
  \<^verbatim>\<open>mime.ParseMediaType\<close> returns the media type in lower case (media types are ASCII tokens),
  so the base types that reach \<^verbatim>\<open>equals\<close> are of the form \<open>ToLower a\<close>. \<open>EqualFold\<close> is equality
  up to ASCII case.
\<close>

definition toLowerChar :: "char \<Rightarrow> char" where
  "toLowerChar ch =
    (case map_of (zip ''ABCDEFGHIJKLMNOPQRSTUVWXYZ'' ''abcdefghijklmnopqrstuvwxyz'') ch of
       Some l \<Rightarrow> l
     | None \<Rightarrow> ch)"

definition ToLower :: "string \<Rightarrow> string" where
  "ToLower s = map toLowerChar s"

fun EqualFold :: "string \<Rightarrow> string \<Rightarrow> bool" where
  "EqualFold [] [] = True"
| "EqualFold (x # xs) (y # ys) = (toLowerChar x = toLowerChar y \<and> EqualFold xs ys)"
| "EqualFold _ _ = False"

text \<open>
  The matching rule in the words of the spec, to be compared with \<^verbatim>\<open>equals\<close>: the base types
  match case-insensitively and, when the configured matcher carries directives, every
  configured directive is present with an equal value in the candidate.
\<close>

definition equals_spec :: "parsedContentType \<Rightarrow> string \<Rightarrow> (string, string) fmap \<Rightarrow> bool" where
  "equals_spec pct mediaType' params' \<longleftrightarrow>
     EqualFold (mediaType pct) mediaType'
   \<and> (fmdom (params pct) = {||} \<or> fmpred (\<lambda>k v. fmlookup params' k = Some v) (params pct))"

text \<open>The configured matcher \<^verbatim>\<open>text/html; charset=utf-8\<close>.\<close>

definition htmlUtf8 :: parsedContentType where
  "htmlUtf8 = \<lparr>mediaType = ''text/html'', params = fmupd ''charset'' ''utf-8'' fmempty\<rparr>"

text \<open>
  Two writers about to commit to compression, both with status 404 pending and a content
  length declared: one with five bytes buffered, one with an empty buffer and a threshold
  of 4.
\<close>

definition pendingGzip :: "bool gzipResponseWriter" where
  "pendingGzip =
    (newWriter testCfg (okSink\<lparr>header := [contentLength \<mapsto> [''5'']]\<rparr>))
      \<lparr>code := 404, buf := Some ''hello''\<rparr>"

definition pendingWrite :: "bool gzipResponseWriter" where
  "pendingWrite =
    (newWriter smallCfg (okSink\<lparr>header := [contentLength \<mapsto> [''5'']]\<rparr>))\<lparr>code := 404\<rparr>"

text \<open>
  A sequence of calls without its set-status calls, and with only the first of them that passes
  a non-zero value.
\<close>

fun withoutStatus :: "call list \<Rightarrow> call list" where
  "withoutStatus [] = []"
| "withoutStatus (CallWriteHeader k # cs) = withoutStatus cs"
| "withoutStatus (c # cs) = c # withoutStatus cs"

fun firstStatusOnly :: "call list \<Rightarrow> call list" where
  "firstStatusOnly [] = []"
| "firstStatusOnly (CallWriteHeader k # cs) =
    (if k = 0 then firstStatusOnly cs else CallWriteHeader k # withoutStatus cs)"
| "firstStatusOnly (c # cs) = c # firstStatusOnly cs"

section \<open>Lemmas\<close>

subsection \<open>The compressor only writes\<close>

lemma runW_frame:
  "runW p s = (r, s') \<Longrightarrow>
     header s' = header s \<and> caps s' = caps s \<and> respond s' = respond s \<and> hijackErr s' = hijackErr s
     \<and> (\<exists>ws. trace s' = trace s @ map SWrite ws)"
proof (induction p arbitrary: s)
  case (Return x)
  then show ?case by simp
next
  case (WriteThen b k)
  from WriteThen.prems have run: "runW (k (respond s (trace s) (header s) b)) (s\<lparr>trace := trace s @ [SWrite b]\<rparr>) = (r, s')"
    by (simp add: sinkWrite_def)
  from WriteThen.IH [OF _ run] obtain ws where
    "header s' = header s" "caps s' = caps s" "respond s' = respond s" "hijackErr s' = hijackErr s"
    "trace s' = (trace s @ [SWrite b]) @ map SWrite ws"
    by auto
  then show ?case
    by (auto intro: exI [of _ "b # ws"])
qed

lemma body_append: "body (xs @ ys) = body xs @ body ys"
  by (induction xs rule: body.induct) auto

lemma WriteHeader_zero [simp]: "WriteHeader w 0 = w"
  by (simp add: WriteHeader_def)

subsection \<open>\<^verbatim>\<open>equals\<close> in closed form\<close>

lemma fmpred_eq_lookup:
  assumes "fmpred (\<lambda>k v. fmlookup q k = Some v) p" and "fcard (fmdom p) = fcard (fmdom q)"
  shows "p = q"
proof -
  have sub: "fmdom p |\<subseteq>| fmdom q"
    using assms(1) by (auto simp: fmpred_iff fmlookup_dom_iff)
  then have "fmdom p = fmdom q"
    using assms(2) by (simp add: fcard_seteq)
  show ?thesis
  proof (rule fmap_ext)
    fix k
    show "fmlookup p k = fmlookup q k"
    proof (cases "fmlookup p k")
      case None
      then have "k |\<notin>| fmdom q" using \<open>fmdom p = fmdom q\<close> by (metis fmdom_notI)
      then show ?thesis using None by (simp add: fmdom_notD)
    next
      case (Some v)
      then show ?thesis using assms(1) by (simp add: fmpred_iff)
    qed
  qed
qed

lemma equals_iff:
  "equals pct mt ps \<longleftrightarrow> mediaType pct = mt \<and> (params pct = fmempty \<or> params pct = ps)"
proof (cases "params pct = fmempty")
  case True
  then show ?thesis by (simp add: equals_def)
next
  case False
  then have ne: "fcard (fmdom (params pct)) \<noteq> 0"
    by (metis fcard_0_eq fmrestrict_fset_dom fmrestrict_fset_null)
  show ?thesis
  proof
    assume "equals pct mt ps"
    then show "mediaType pct = mt \<and> (params pct = fmempty \<or> params pct = ps)"
      using ne by (auto simp: equals_def split: if_splits dest: fmpred_eq_lookup)
  next
    assume "mediaType pct = mt \<and> (params pct = fmempty \<or> params pct = ps)"
    then show "equals pct mt ps"
      using False by (auto simp: equals_def fmpred_iff)
  qed
qed

subsection \<open>Effects of the two commits\<close>

lemma statusEvents_append [simp]: "statusEvents (xs @ ys) = statusEvents xs @ statusEvents ys"
  by (simp add: statusEvents_def)

lemma statusEvents_SWrite [simp]: "statusEvents (map SWrite ws) = []"
  by (induction ws) (simp_all add: statusEvents_def)

lemma statusEvents_simps [simp]:
  "statusEvents [] = []"
  "statusEvents (SWriteHeader c # es) = SWriteHeader c # statusEvents es"
  "statusEvents (SWrite b # es) = statusEvents es"
  "statusEvents (SFlush # es) = statusEvents es"
  "statusEvents (SHijack # es) = statusEvents es"
  by (simp_all add: statusEvents_def)

lemma emitCode_effect:
  "gw (emitCode w) = gw w" "buf (emitCode w) = buf w" "ignore (emitCode w) = ignore w"
  "cfg (emitCode w) = cfg w" "code (emitCode w) = 0"
  "header (RW (emitCode w)) = header (RW w)" "caps (RW (emitCode w)) = caps (RW w)"
  "respond (RW (emitCode w)) = respond (RW w)" "hijackErr (RW (emitCode w)) = hijackErr (RW w)"
  "trace (RW (emitCode w)) = trace (RW w) @ (if code w \<noteq> 0 then [SWriteHeader (code w)] else [])"
  by (simp_all add: emitCode_def sinkWriteHeader_def)

lemma startPlain_effect:
  assumes "startPlain w = (err, w')"
  shows "ignore w'" "gw w' = gw w" "cfg w' = cfg w" "buf w' = None" "code w' = 0"
    "header (RW w') = header (RW w)" "caps (RW w') = caps (RW w)"
    "respond (RW w') = respond (RW w)" "hijackErr (RW w') = hijackErr (RW w)"
    "trace (RW w') = trace (RW w) @ (if code w \<noteq> 0 then [SWriteHeader (code w)] else [])
                       @ (case buf w of None \<Rightarrow> [] | Some x \<Rightarrow> [SWrite x])"
  using assms
  by (auto simp: startPlain_def Let_def emitCode_effect sinkWrite_def bytesOf_def
           split: if_splits prod.splits option.splits)

lemma init_effect:
  "RW (snd (init E w)) = RW w" "code (snd (init E w)) = code w" "buf (snd (init E w)) = buf w"
  "ignore (snd (init E w)) = ignore w" "gw (snd (init E w)) = Some (fst (init E w))"
  "minSize (cfg (snd (init E w))) = minSize (cfg w)"
  "contentTypes (cfg (snd (init E w))) = contentTypes (cfg w)"
  by (auto simp: init_def poolGet_def split: prod.splits list.splits)

lemma startGzip_effect:
  assumes "startGzip E w = (err, w')"
  shows "header (RW w') contentEncoding = Some [''gzip'']
    \<and> header (RW w') contentLength = None
    \<and> code w' = 0 \<and> ignore w' = ignore w \<and> buf w' = buf w
    \<and> caps (RW w') = caps (RW w) \<and> respond (RW w') = respond (RW w)
    \<and> minSize (cfg w') = minSize (cfg w) \<and> contentTypes (cfg w') = contentTypes (cfg w)
    \<and> (\<exists>ws. trace (RW w') = trace (RW w) @ (if code w \<noteq> 0 then [SWriteHeader (code w)] else [])
                       @ map SWrite ws)
    \<and> (len (buf w) \<le> 0 \<longrightarrow> gw w' = gw w \<and> cfg w' = cfg w)"
proof -
  define w3 where "w3 = emitCode (setHeader (setHeader w (Header_Set (header (RW w)) contentEncoding ''gzip''))
        (Header_Del (Header_Set (header (RW w)) contentEncoding ''gzip'') contentLength))"
  have w3: "header (RW w3) contentEncoding = Some [''gzip'']" "header (RW w3) contentLength = None"
      "code w3 = 0" "ignore w3 = ignore w" "buf w3 = buf w" "gw w3 = gw w" "cfg w3 = cfg w"
      "caps (RW w3) = caps (RW w)" "respond (RW w3) = respond (RW w)"
      "trace (RW w3) = trace (RW w) @ (if code w \<noteq> 0 then [SWriteHeader (code w)] else [])"
    by (simp_all add: w3_def emitCode_effect setHeader_def Header_Set_def Header_Del_def
          contentEncoding_def contentLength_def)
  show ?thesis
  proof (cases "len (buf w3) > 0")
    case False
    then have "w' = w3"
      using assms by (simp add: startGzip_def Let_def w3_def setHeader_def)
    then show ?thesis
      using w3 by (auto intro: exI [of _ "[]"])
  next
    case True
    obtain n e g' s' where r: "runW (gzWrite (gzip E) (fst (init E w3)) (bytesOf (buf (snd (init E w3))))) (RW (snd (init E w3))) = (((n, e), g'), s')"
      by (metis prod.exhaust)
    have w': "w' = (snd (init E w3))\<lparr>ResponseWriter := s', gw := Some g'\<rparr>"
      using assms True r by (simp add: startGzip_def Let_def w3_def setHeader_def split_beta)
    from runW_frame [OF r] obtain ws where
      fr: "header s' = header (RW w3)" "caps s' = caps (RW w3)" "respond s' = respond (RW w3)"
          "trace s' = trace (RW w3) @ map SWrite ws"
      by (auto simp: init_effect)
    show ?thesis
      using w3 fr True by (auto simp: w' init_effect)
  qed
qed

subsection \<open>The cases of \<^verbatim>\<open>Write\<close>\<close>

lemma buffered_simps [simp]:
  "RW (buffered w b) = RW w" "cfg (buffered w b) = cfg w" "gw (buffered w b) = gw w"
  "code (buffered w b) = code w" "ignore (buffered w b) = ignore w"
  "buf (buffered w b) = appendBytes (buf w) b"
  by (simp_all add: buffered_def)

lemma sniffed_simps [simp]:
  "cfg (sniffed E w) = cfg w" "gw (sniffed E w) = gw w" "code (sniffed E w) = code w"
  "ignore (sniffed E w) = ignore w" "buf (sniffed E w) = buf w"
  "trace (RW (sniffed E w)) = trace (RW w)" "caps (RW (sniffed E w)) = caps (RW w)"
  "respond (RW (sniffed E w)) = respond (RW w)" "hijackErr (RW (sniffed E w)) = hijackErr (RW w)"
  by (simp_all add: sniffed_def setHeader_def)

lemma committed_eq:
  "committed b (e, v) = ((if e = None then (int (length b), None) else (0, e)), v)"
  by (cases e) (simp_all add: committed_def)

lemma Write_undecided:
  assumes "gw w = None" "\<not> ignore w"
  shows "Write E w b =
    (let w1 = buffered w b;
         cl = Atoi (Header_Get (header (RW w)) contentLength);
         ct = Header_Get (header (RW w)) contentType;
         ce = Header_Get (header (RW w)) contentEncoding
     in if ce = '''' \<and> (cl = 0 \<or> cl \<ge> minSize (cfg w))
             \<and> (ct = '''' \<or> handleContentType E (contentTypes (cfg w)) ct) then
          (if len (buf w1) < minSize (cfg w) \<and> cl = 0 then ((int (length b), None), w1)
           else if cl \<ge> minSize (cfg w) \<or> len (buf w1) \<ge> minSize (cfg w) then
             (if handleContentType E (contentTypes (cfg w))
                   (if ct = '''' then DetectContentType E (bytesOf (buf w1)) else ct)
              then committed b (startGzip E (sniffed E w1))
              else committed b (startPlain (sniffed E w1)))
           else committed b (startPlain w1))
        else committed b (startPlain w1))"
  using assms
  by (auto simp: Write_def Let_def buffered_def sniffed_def setHeader_def)

text \<open>
  Every call of \<^verbatim>\<open>Write\<close> is one of six: forwarded to the compressor, forwarded to the sink,
  withheld in the buffer, a commit to compression, or a commit to passthrough (before or after
  the content type was sniffed), each with the condition under which the code takes it.
\<close>

lemma Write_cases [consumes 1, case_names compressed passthrough withheld commitGzip commitPlain commitPlainSniffed]:
  assumes "Write E w b = (r, w')"
  obtains
    g g' s' where "gw w = Some g" "runW (gzWrite (gzip E) g b) (RW w) = ((r, g'), s')"
      "w' = w\<lparr>ResponseWriter := s', gw := Some g'\<rparr>"
  | "gw w = None" "ignore w" "r = fst (sinkWrite (RW w) b)"
      "w' = w\<lparr>ResponseWriter := snd (sinkWrite (RW w) b)\<rparr>"
  | "gw w = None" "\<not> ignore w" "r = (int (length b), None)" "w' = buffered w b"
      "Header_Get (header (RW w)) contentEncoding = ''''"
      "Atoi (Header_Get (header (RW w)) contentLength) = 0"
      "len (buf (buffered w b)) < minSize (cfg w)"
      "Header_Get (header (RW w)) contentType = '''' \<or>
         handleContentType E (contentTypes (cfg w)) (Header_Get (header (RW w)) contentType)"
  | err where "gw w = None" "\<not> ignore w" "startGzip E (sniffed E (buffered w b)) = (err, w')"
      "r = (if err = None then (int (length b), None) else (0, err))"
      "Header_Get (header (RW w)) contentEncoding = ''''"
      "Atoi (Header_Get (header (RW w)) contentLength) \<ge> minSize (cfg w)
         \<or> len (buf (buffered w b)) \<ge> minSize (cfg w)"
  | err where "gw w = None" "\<not> ignore w" "startPlain (buffered w b) = (err, w')"
      "r = (if err = None then (int (length b), None) else (0, err))"
      "Header_Get (header (RW w)) contentEncoding \<noteq> []
       \<or> (Atoi (Header_Get (header (RW w)) contentLength) \<noteq> 0
          \<and> Atoi (Header_Get (header (RW w)) contentLength) < minSize (cfg w))
       \<or> (Header_Get (header (RW w)) contentType \<noteq> [] \<and>
         \<not> handleContentType E (contentTypes (cfg w)) (Header_Get (header (RW w)) contentType))"
  | err where "gw w = None" "\<not> ignore w" "startPlain (sniffed E (buffered w b)) = (err, w')"
      "r = (if err = None then (int (length b), None) else (0, err))"
      "Header_Get (header (RW w)) contentEncoding = []"
      "Atoi (Header_Get (header (RW w)) contentLength) \<ge> minSize (cfg w)
         \<or> len (buf (buffered w b)) \<ge> minSize (cfg w)"
proof (cases "gw w")
  case (Some g)
  obtain g' s' where "runW (gzWrite (gzip E) g b) (RW w) = ((r, g'), s')"
      "w' = w\<lparr>ResponseWriter := s', gw := Some g'\<rparr>"
    using assms Some by (auto simp: Write_def split: prod.splits)
  then show ?thesis using Some that(1) by blast
next
  case None
  show ?thesis
  proof (cases "ignore w")
    case True
    then show ?thesis
      using assms None that(2) by (auto simp: Write_def split: prod.splits)
  next
    case False
    define w1 where "w1 = buffered w b"
    define cl where "cl = Atoi (Header_Get (header (RW w)) contentLength)"
    define ct where "ct = Header_Get (header (RW w)) contentType"
    define ce where "ce = Header_Get (header (RW w)) contentEncoding"
    define m where "m = minSize (cfg w)"
    define ok where "ok = (ce = '''' \<and> (cl = 0 \<or> cl \<ge> m)
             \<and> (ct = '''' \<or> handleContentType E (contentTypes (cfg w)) ct))"
    have wr: "Write E w b = (if ok then
          (if len (buf w1) < m \<and> cl = 0 then ((int (length b), None), w1)
           else if cl \<ge> m \<or> len (buf w1) \<ge> m then
             (if handleContentType E (contentTypes (cfg w))
                   (if ct = [] then DetectContentType E (bytesOf (buf w1)) else ct)
              then committed b (startGzip E (sniffed E w1))
              else committed b (startPlain (sniffed E w1)))
           else committed b (startPlain w1))
        else committed b (startPlain w1))"
      unfolding Write_undecided [OF None False] Let_def ok_def w1_def cl_def ct_def ce_def m_def
      by (rule refl)
    have eq': "(if ok then
          (if len (buf w1) < m \<and> cl = 0 then ((int (length b), None), w1)
           else if cl \<ge> m \<or> len (buf w1) \<ge> m then
             (if handleContentType E (contentTypes (cfg w))
                   (if ct = [] then DetectContentType E (bytesOf (buf w1)) else ct)
              then committed b (startGzip E (sniffed E w1))
              else committed b (startPlain (sniffed E w1)))
           else committed b (startPlain w1))
        else committed b (startPlain w1)) = (r, w')"
      using assms unfolding wr .
    show ?thesis
    proof (cases ok)
      case nok: False
      obtain e v where sp: "startPlain w1 = (e, v)" by (cases "startPlain w1")
      have "r = (if e = None then (int (length b), None) else (0, e))" "w' = v"
        using eq' nok sp by (simp_all add: committed_eq)
      moreover have "ce \<noteq> '''' \<or> (cl \<noteq> 0 \<and> cl < m) \<or> (ct \<noteq> '''' \<and> \<not> handleContentType E (contentTypes (cfg w)) ct)"
        using nok by (auto simp: ok_def)
      ultimately show ?thesis
        using that(5) [of e] sp None False
        by (auto simp: w1_def ce_def cl_def ct_def m_def)
    next
      case ok: True
      show ?thesis
      proof (cases "len (buf w1) < m \<and> cl = 0")
        case True
        then have "r = (int (length b), None)" "w' = w1"
          using eq' ok by simp_all
        then show ?thesis
          using that(3) None False True ok
          by (auto simp: w1_def ce_def cl_def ct_def m_def ok_def)
      next
        case nh: False
        have big: "cl \<ge> m \<or> len (buf w1) \<ge> m"
          using nh ok by (auto simp: ok_def)
        show ?thesis
        proof (cases "handleContentType E (contentTypes (cfg w))
                   (if ct = '''' then DetectContentType E (bytesOf (buf w1)) else ct)")
          case True
          obtain e v where sg: "startGzip E (sniffed E w1) = (e, v)"
            by (cases "startGzip E (sniffed E w1)")
          have "r = (if e = None then (int (length b), None) else (0, e))" "w' = v"
            using eq' ok nh big True sg by (simp_all add: committed_eq)
          then show ?thesis
            using that(4) [of e] sg None False ok big
            by (auto simp: w1_def ce_def cl_def ct_def m_def ok_def)
        next
          case nct: False
          obtain e v where sp: "startPlain (sniffed E w1) = (e, v)"
            by (cases "startPlain (sniffed E w1)")
          have "r = (if e = None then (int (length b), None) else (0, e))" "w' = v"
            using eq' ok nh big nct sp by (simp_all add: committed_eq)
          then show ?thesis
            using that(6) [of e] sp None False ok big
            by (auto simp: w1_def ce_def cl_def ct_def m_def ok_def)
        qed
      qed
    qed
  qed
qed

subsection \<open>The body: pre-encoded and small responses\<close>

lemma Atoi_empty [simp]: "Atoi [] = 0"
  by (simp add: Atoi_def)

lemma bytesOf_appendBytes [simp]: "bytesOf (appendBytes x b) = bytesOf x @ b"
  by (cases x) (simp_all add: bytesOf_def appendBytes_def)

lemma bytesOf_None [simp]: "bytesOf None = []"
  by (simp add: bytesOf_def)

lemma len_bytesOf: "len x = int (length (bytesOf x))"
  by (cases x) (simp_all add: len_def bytesOf_def)

lemma sinkWrite_effect:
  "header (snd (sinkWrite s b)) = header s" "caps (snd (sinkWrite s b)) = caps s"
  "respond (snd (sinkWrite s b)) = respond s" "hijackErr (snd (sinkWrite s b)) = hijackErr s"
  "trace (snd (sinkWrite s b)) = trace s @ [SWrite b]"
  by (simp_all add: sinkWrite_def)

lemma body_snoc [simp]:
  "body (es @ [SWrite b]) = body es @ b"
  "body (es @ [SWriteHeader c]) = body es" "body (es @ [SFlush]) = body es"
  by (simp_all add: body_append)

lemma body_startPlain:
  assumes "startPlain w = (err, w')"
  shows "body (trace (RW w')) = body (trace (RW w)) @ bytesOf (buf w)"
  using startPlain_effect(10) [OF assms]
  by (simp add: body_append bytesOf_def split: option.splits)

lemma Flush_plain:
  assumes "gw w = None"
  shows "gw (Flush E w) = None \<and> header (RW (Flush E w)) = header (RW w)
       \<and> cfg (Flush E w) = cfg w \<and> ignore (Flush E w) = ignore w \<and> buf (Flush E w) = buf w
       \<and> code (Flush E w) = code w
       \<and> body (trace (RW (Flush E w))) = body (trace (RW w))"
  using assms by (simp add: Flush_def Let_def sinkFlush_def)

lemma WriteHeader_frame:
  "gw (WriteHeader w c) = gw w" "RW (WriteHeader w c) = RW w" "cfg (WriteHeader w c) = cfg w"
  "ignore (WriteHeader w c) = ignore w" "buf (WriteHeader w c) = buf w"
  by (simp_all add: WriteHeader_def)

lemma setHeader_frame [simp]:
  "gw (setHeader w h) = gw w" "cfg (setHeader w h) = cfg w" "code (setHeader w h) = code w"
  "ignore (setHeader w h) = ignore w" "buf (setHeader w h) = buf w"
  "header (RW (setHeader w h)) = h" "trace (RW (setHeader w h)) = trace (RW w)"
  "caps (RW (setHeader w h)) = caps (RW w)" "respond (RW (setHeader w h)) = respond (RW w)"
  "hijackErr (RW (setHeader w h)) = hijackErr (RW w)"
  by (simp_all add: setHeader_def)

lemma Write_encoded:
  assumes "gw w = None" and "Header_Get (header (RW w)) contentEncoding \<noteq> ''''"
    and "ignore w \<or> buf w = None" and "Write E w b = (r, w')"
  shows "gw w' = None \<and> header (RW w') = header (RW w) \<and> cfg w' = cfg w \<and> ignore w'
       \<and> body (trace (RW w')) = body (trace (RW w)) @ b"
  using assms(4)
proof (cases rule: Write_cases)
  case (compressed g g' s')
  then show ?thesis using assms(1) by simp
next
  case passthrough
  then show ?thesis by (simp add: sinkWrite_effect)
next
  case withheld
  then show ?thesis using assms(2) by simp
next
  case (commitGzip err)
  then show ?thesis using assms(2) by simp
next
  case (commitPlain err)
  have nb: "buf w = None" using commitPlain(2) assms(3) by simp
  show ?thesis
    using startPlain_effect [OF commitPlain(3)] body_startPlain [OF commitPlain(3)] commitPlain(1) nb
    by simp
next
  case (commitPlainSniffed err)
  then show ?thesis using assms(2) by simp
qed

lemma run_encoded:
  assumes "run E w cs = (rs, w')" and "gw w = None"
    and "Header_Get (header (RW w)) contentEncoding \<noteq> []" and "ignore w \<or> buf w = None"
    and "\<forall>f h. CallHeader f \<in> set cs \<longrightarrow> Header_Get h contentEncoding \<noteq> [] \<longrightarrow>
           Header_Get (f h) contentEncoding \<noteq> []"
  shows "gw w' = None \<and> header (RW w') = handlerHeaders cs (header (RW w)) \<and> cfg w' = cfg w
       \<and> (ignore w' \<or> buf w' = None) \<and> (ignore w \<or> writes cs \<noteq> [] \<longrightarrow> ignore w')
       \<and> body (trace (RW w')) = body (trace (RW w)) @ written cs"
  using assms
proof (induction cs arbitrary: w rs)
  case Nil
  then show ?case by simp
next
  case (Cons c cs)
  have hk: "\<forall>f h. CallHeader f \<in> set cs \<longrightarrow> Header_Get h contentEncoding \<noteq> [] \<longrightarrow>
           Header_Get (f h) contentEncoding \<noteq> []"
    using Cons.prems(5) by simp
  show ?case
  proof (cases c)
    case (CallWrite b)
    obtain r w1 where wr: "Write E w b = (r, w1)" by (cases "Write E w b")
    obtain rs1 where rn: "run E w1 cs = (rs1, w')"
      using Cons.prems(1) CallWrite wr by (auto split: prod.splits)
    note st = Write_encoded [OF Cons.prems(2,3,4) wr]
    have "gw w' = None \<and> header (RW w') = handlerHeaders cs (header (RW w1)) \<and> cfg w' = cfg w1
       \<and> (ignore w' \<or> buf w' = None) \<and> (ignore w1 \<or> writes cs \<noteq> [] \<longrightarrow> ignore w')
       \<and> body (trace (RW w')) = body (trace (RW w1)) @ written cs"
      using st Cons.prems(3) hk by (intro Cons.IH [OF rn]) simp_all
    then show ?thesis using st CallWrite by simp
  next
    case (CallWriteHeader k)
    have rn: "run E (WriteHeader w k) cs = (rs, w')"
      using Cons.prems(1) CallWriteHeader by simp
    show ?thesis
      using Cons.IH [OF rn _ _ _ hk] Cons.prems(2,3,4) CallWriteHeader
      by (simp add: WriteHeader_frame)
  next
    case CallFlush
    have rn: "run E (Flush E w) cs = (rs, w')"
      using Cons.prems(1) CallFlush by simp
    note fl = Flush_plain [OF Cons.prems(2), of E]
    show ?thesis
      using Cons.IH [OF rn _ _ _ hk] Cons.prems(3,4) fl CallFlush
      by simp
  next
    case (CallHeader f)
    have rn: "run E (setHeader w (f (header (RW w)))) cs = (rs, w')"
      using Cons.prems(1) CallHeader by simp
    have ce: "Header_Get (f (header (RW w))) contentEncoding \<noteq> []"
      using Cons.prems(3,5) CallHeader by simp
    show ?thesis
      using Cons.IH [OF rn _ _ _ hk] Cons.prems(2,4) ce CallHeader
      by simp
  qed
qed

lemma Write_small:
  assumes "gw w = None" and "Header_Get (header (RW w)) contentLength = ''''"
    and "\<not> ignore w \<longrightarrow> len (buf w) + int (length b) < minSize (cfg w)"
    and "Write E w b = (r, w')"
  shows "gw w' = None \<and> header (RW w') = header (RW w) \<and> cfg w' = cfg w
       \<and> (ignore w \<longrightarrow> ignore w')
       \<and> (\<not> ignore w' \<longrightarrow> len (buf w') = len (buf w) + int (length b))
       \<and> outstanding w' = outstanding w @ b"
  using assms(4)
proof (cases rule: Write_cases)
  case (compressed g g' s')
  then show ?thesis using assms(1) by simp
next
  case passthrough
  then show ?thesis by (simp add: sinkWrite_effect outstanding_def)
next
  case withheld
  then show ?thesis by (simp add: outstanding_def len_bytesOf)
next
  case (commitGzip err)
  then show ?thesis using assms(2,3) by (simp add: len_bytesOf)
next
  case (commitPlain err)
  show ?thesis
    using startPlain_effect [OF commitPlain(3)] body_startPlain [OF commitPlain(3)] commitPlain(1,2)
    by (simp add: outstanding_def)
next
  case (commitPlainSniffed err)
  then show ?thesis using assms(2,3) by (simp add: len_bytesOf)
qed

lemma outstanding_setHeader [simp]: "outstanding (setHeader w h) = outstanding w"
  by (simp add: outstanding_def)

lemma run_small:
  assumes "run E w cs = (rs, w')" and "gw w = None"
    and "Header_Get (header (RW w)) contentLength = []"
    and "\<not> ignore w \<longrightarrow> len (buf w) + int (length (written cs)) < minSize (cfg w)"
    and "\<forall>f h. CallHeader f \<in> set cs \<longrightarrow> Header_Get h contentLength = [] \<longrightarrow>
           Header_Get (f h) contentLength = []"
  shows "gw w' = None \<and> header (RW w') = handlerHeaders cs (header (RW w)) \<and> cfg w' = cfg w
       \<and> outstanding w' = outstanding w @ written cs"
  using assms
proof (induction cs arbitrary: w rs)
  case Nil
  then show ?case by simp
next
  case (Cons c cs)
  have hk: "\<forall>f h. CallHeader f \<in> set cs \<longrightarrow> Header_Get h contentLength = [] \<longrightarrow>
           Header_Get (f h) contentLength = []"
    using Cons.prems(5) by simp
  show ?case
  proof (cases c)
    case (CallWrite b)
    obtain r w1 where wr: "Write E w b = (r, w1)" by (cases "Write E w b")
    obtain rs1 where rn: "run E w1 cs = (rs1, w')"
      using Cons.prems(1) CallWrite wr by (auto split: prod.splits)
    have small: "\<not> ignore w \<longrightarrow> len (buf w) + int (length b) < minSize (cfg w)"
      using Cons.prems(4) CallWrite by auto
    note st = Write_small [OF Cons.prems(2,3) small wr]
    have "gw w' = None \<and> header (RW w') = handlerHeaders cs (header (RW w1)) \<and> cfg w' = cfg w1
       \<and> outstanding w' = outstanding w1 @ written cs"
      using st Cons.prems(3,4) CallWrite hk by (intro Cons.IH [OF rn]) auto
    then show ?thesis using st CallWrite by simp
  next
    case (CallWriteHeader k)
    have rn: "run E (WriteHeader w k) cs = (rs, w')"
      using Cons.prems(1) CallWriteHeader by simp
    show ?thesis
      using Cons.IH [OF rn _ _ _ hk] Cons.prems(2,3,4) CallWriteHeader
      by (simp add: WriteHeader_frame outstanding_def)
  next
    case CallFlush
    have rn: "run E (Flush E w) cs = (rs, w')"
      using Cons.prems(1) CallFlush by simp
    note fl = Flush_plain [OF Cons.prems(2), of E]
    show ?thesis
      using Cons.IH [OF rn _ _ _ hk] Cons.prems(3,4) fl CallFlush
      by (simp add: outstanding_def)
  next
    case (CallHeader f)
    have rn: "run E (setHeader w (f (header (RW w)))) cs = (rs, w')"
      using Cons.prems(1) CallHeader by simp
    have cl: "Header_Get (f (header (RW w))) contentLength = []"
      using Cons.prems(3,5) CallHeader by simp
    show ?thesis
      using Cons.IH [OF rn _ _ _ hk] Cons.prems(2,4) cl CallHeader
      by simp
  qed
qed

lemma Close_plain:
  assumes "gw w = None" and "Close E w = (err, w')"
  shows "gw w' = None \<and> header (RW w') = header (RW w) \<and> cfg w' = cfg w \<and> ignore w'
       \<and> body (trace (RW w')) = outstanding w"
proof (cases "ignore w")
  case True
  then show ?thesis using assms by (simp add: Close_def outstanding_def)
next
  case False
  obtain e v where sp: "startPlain w = (e, v)" by (cases "startPlain w")
  have "w' = v" using assms False sp by (simp add: Close_def)
  then show ?thesis
    using startPlain_effect [OF sp] body_startPlain [OF sp] assms(1) False
    by (simp add: outstanding_def)
qed

lemma Write_withheld:
  assumes "gw w = None" "\<not> ignore w"
    and "Header_Get (header (RW w)) contentLength = []"
    and "compressible E (cfg w) (header (RW w))"
    and "len (buf w) + int (length b) < minSize (cfg w)"
  shows "Write E w b = ((int (length b), None), buffered w b)"
  using assms by (simp add: Write_undecided Let_def len_bytesOf compressible_def)

lemma run_withheld:
  assumes "run E w cs = (rs, w')" and "gw w = None" "\<not> ignore w"
    and "Header_Get (header (RW w)) contentLength = []"
    and "compressible E (cfg w) (header (RW w))"
    and "len (buf w) + int (length (written cs)) < minSize (cfg w)"
    and "\<forall>f h. CallHeader f \<in> set cs \<longrightarrow>
           Header_Get h contentLength = [] \<and> compressible E (cfg w) h \<longrightarrow>
           Header_Get (f h) contentLength = [] \<and> compressible E (cfg w) (f h)"
  shows "rs = map (\<lambda>b. (int (length b), None)) (writes cs)
       \<and> RW w' = (RW w)\<lparr>header := handlerHeaders cs (header (RW w))\<rparr> \<and> gw w' = None
       \<and> \<not> ignore w' \<and> cfg w' = cfg w \<and> bytesOf (buf w') = bytesOf (buf w) @ written cs"
  using assms
proof (induction cs arbitrary: w rs)
  case Nil
  then show ?case by simp
next
  case (Cons c cs)
  have hk: "\<forall>f h. CallHeader f \<in> set cs \<longrightarrow>
           Header_Get h contentLength = [] \<and> compressible E (cfg w) h \<longrightarrow>
           Header_Get (f h) contentLength = [] \<and> compressible E (cfg w) (f h)"
    using Cons.prems(7) by simp
  show ?case
  proof (cases c)
    case (CallWrite b)
    have small: "len (buf w) + int (length b) < minSize (cfg w)"
      using Cons.prems(6) CallWrite by simp
    have wr: "Write E w b = ((int (length b), None), buffered w b)"
      using Cons.prems(2-5) small by (rule Write_withheld)
    obtain rs1 where rn: "run E (buffered w b) cs = (rs1, w')"
      and rs: "rs = (int (length b), None) # rs1"
      using Cons.prems(1) CallWrite wr by (auto split: prod.splits)
    have "rs1 = map (\<lambda>b. (int (length b), None)) (writes cs)
        \<and> RW w' = (RW (buffered w b))\<lparr>header := handlerHeaders cs (header (RW (buffered w b)))\<rparr>
        \<and> gw w' = None \<and> \<not> ignore w' \<and> cfg w' = cfg (buffered w b)
        \<and> bytesOf (buf w') = bytesOf (buf (buffered w b)) @ written cs"
      using Cons.prems(2-6) CallWrite hk
      by (intro Cons.IH [OF rn]) (simp_all add: len_bytesOf)
    then show ?thesis using rs CallWrite by simp
  next
    case (CallWriteHeader k)
    have rn: "run E (WriteHeader w k) cs = (rs, w')"
      using Cons.prems(1) CallWriteHeader by simp
    have "rs = map (\<lambda>b. (int (length b), None)) (writes cs)
        \<and> RW w' = (RW (WriteHeader w k))\<lparr>header := handlerHeaders cs (header (RW (WriteHeader w k)))\<rparr>
        \<and> gw w' = None \<and> \<not> ignore w' \<and> cfg w' = cfg (WriteHeader w k)
        \<and> bytesOf (buf w') = bytesOf (buf (WriteHeader w k)) @ written cs"
      using Cons.prems(2-6) CallWriteHeader hk
      by (intro Cons.IH [OF rn]) (simp_all add: WriteHeader_frame)
    then show ?thesis using CallWriteHeader by (simp add: WriteHeader_frame)
  next
    case CallFlush
    have "Flush E w = w" using Cons.prems(2,3) by (simp add: Flush_def)
    then have rn: "run E w cs = (rs, w')"
      using Cons.prems(1) CallFlush by simp
    show ?thesis
      using Cons.IH [OF rn Cons.prems(2-5) _ hk] Cons.prems(6) CallFlush by simp
  next
    case (CallHeader f)
    define w1 where "w1 = setHeader w (f (header (RW w)))"
    have rn: "run E w1 cs = (rs, w')"
      using Cons.prems(1) CallHeader by (simp add: w1_def)
    have keep: "Header_Get (f (header (RW w))) contentLength = [] \<and> compressible E (cfg w) (f (header (RW w)))"
      using Cons.prems(4,5,7) CallHeader by simp
    have "rs = map (\<lambda>b. (int (length b), None)) (writes cs)
        \<and> RW w' = (RW w1)\<lparr>header := handlerHeaders cs (header (RW w1))\<rparr>
        \<and> gw w' = None \<and> \<not> ignore w' \<and> cfg w' = cfg w1
        \<and> bytesOf (buf w') = bytesOf (buf w1) @ written cs"
      using Cons.prems(2,3,6) keep hk CallHeader
      by (intro Cons.IH [OF rn]) (simp_all add: w1_def)
    then show ?thesis using CallHeader by (simp add: w1_def setHeader_def)
  qed
qed

subsection \<open>The pending status\<close>

lemma startPlain_status:
  assumes "startPlain w = (err, w')"
  shows "statusStep w w'" "code w \<noteq> 0 \<Longrightarrow> code w' \<noteq> code w"
  using startPlain_effect [OF assms]
  by (cases "code w = 0"; auto simp: statusStep_def split: option.splits)+

lemma startGzip_status:
  assumes "startGzip E w = (err, w')"
  shows "statusStep w w'" "code w \<noteq> 0 \<Longrightarrow> code w' \<noteq> code w"
  using startGzip_effect [OF assms]
  by (cases "code w = 0"; auto simp: statusStep_def)+

lemma statusStep_sniffed_buffered:
  "statusStep (sniffed E (buffered w b)) w' \<Longrightarrow> statusStep w w'"
  "statusStep (buffered w b) w' \<Longrightarrow> statusStep w w'"
  by (simp_all add: statusStep_def)

lemma Write_status:
  assumes "Write E w b = (r, w')"
  shows "statusStep w w'"
  using assms
proof (cases rule: Write_cases)
  case (compressed g g' s')
  from runW_frame [OF compressed(2)] show ?thesis
    using compressed(3) by (auto simp: statusStep_def)
next
  case passthrough
  then show ?thesis by (simp add: statusStep_def sinkWrite_effect)
next
  case withheld
  then show ?thesis by (simp add: statusStep_def)
next
  case (commitGzip err)
  show ?thesis
    using startGzip_status(1) [OF commitGzip(3)] by (rule statusStep_sniffed_buffered(1))
next
  case (commitPlain err)
  show ?thesis
    using startPlain_status(1) [OF commitPlain(3)] by (rule statusStep_sniffed_buffered(2))
next
  case (commitPlainSniffed err)
  show ?thesis
    using startPlain_status(1) [OF commitPlainSniffed(3)] by (rule statusStep_sniffed_buffered(1))
qed

lemma Close_status:
  assumes "Close E w = (err, w')"
  shows "statusStep w w'"
proof (cases "ignore w")
  case True
  then show ?thesis using assms by (simp add: Close_def statusStep_def)
next
  case False
  show ?thesis
  proof (cases "gw w")
    case None
    obtain e v where sp: "startPlain w = (e, v)" by (cases "startPlain w")
    have "w' = v" using assms False None sp by (simp add: Close_def)
    then show ?thesis using startPlain_status(1) [OF sp] by simp
  next
    case (Some g)
    obtain e g' s' where r: "runW (gzClose (gzip E) g) (RW w) = ((e, g'), s')"
      by (metis prod.exhaust)
    have "w' = w\<lparr>ResponseWriter := s', cfg := poolPut (cfg w) g', gw := None\<rparr>"
      using assms False Some r by (simp add: Close_def)
    then show ?thesis
      using runW_frame [OF r] by (auto simp: statusStep_def)
  qed
qed

lemma Flush_status: "statusStep w (Flush E w)"
proof (cases "gw w")
  case None
  then show ?thesis by (simp add: Flush_def statusStep_def sinkFlush_def)
next
  case (Some g)
  obtain e g' s' where r: "runW (gzFlush (gzip E) g) (RW w) = ((e, g'), s')"
    by (metis prod.exhaust)
  show ?thesis
    using runW_frame [OF r] Some r
    by (auto simp: Flush_def Let_def statusStep_def sinkFlush_def)
qed

lemma run_status:
  assumes "run E w cs = (rs, w')"
  shows "(statusEvents (trace (RW w')) = statusEvents (trace (RW w)) \<and> code w' = pendingStatus w cs)
       \<or> (pendingStatus w cs \<noteq> 0 \<and> emitsFirst (trace (RW w)) (trace (RW w')) (pendingStatus w cs))"
  using assms
proof (induction cs arbitrary: w rs)
  case Nil
  then show ?case by (simp add: pendingStatus_def)
next
  case (Cons c cs)
  have step: "statusStep w w1 \<Longrightarrow> run E w1 cs = (rs1, w') \<Longrightarrow> statuses (c # cs) = statuses cs \<Longrightarrow> ?case"
    for w1 rs1
  proof -
    assume st: "statusStep w w1" and rn: "run E w1 cs = (rs1, w')"
      and same: "statuses (c # cs) = statuses cs"
    note ih = Cons.IH [OF rn]
    from st consider
        (quiet) "statusEvents (trace (RW w1)) = statusEvents (trace (RW w))" "code w1 = code w"
      | (emit) "code w \<noteq> 0" "code w1 = 0"
          "statusEvents (trace (RW w1)) = statusEvents (trace (RW w)) @ [SWriteHeader (code w)]"
      by (auto simp: statusStep_def)
    then show ?case
    proof cases
      case quiet
      then have "pendingStatus w (c # cs) = pendingStatus w1 cs"
        using same by (simp add: pendingStatus_def)
      then show ?thesis using ih quiet by (simp add: emitsFirst_def)
    next
      case emit
      then have p: "pendingStatus w (c # cs) = code w" by (simp add: pendingStatus_def)
      from ih obtain ext where "statusEvents (trace (RW w')) = statusEvents (trace (RW w1)) @ ext"
        by (auto simp: emitsFirst_def)
      then show ?thesis using emit p by (simp add: emitsFirst_def)
    qed
  qed
  show ?case
  proof (cases c)
    case (CallWrite b)
    obtain r w1 where wr: "Write E w b = (r, w1)" by (cases "Write E w b")
    obtain rs1 where rn: "run E w1 cs = (rs1, w')"
      using Cons.prems CallWrite wr by (auto split: prod.splits)
    show ?thesis
      using step [OF Write_status [OF wr] rn] CallWrite by simp
  next
    case (CallWriteHeader k)
    have rn: "run E (WriteHeader w k) cs = (rs, w')"
      using Cons.prems CallWriteHeader by simp
    have "pendingStatus w (c # cs) = pendingStatus (WriteHeader w k) cs"
      using CallWriteHeader by (simp add: pendingStatus_def WriteHeader_def)
    then show ?thesis
      using Cons.IH [OF rn] by (simp add: WriteHeader_frame)
  next
    case CallFlush
    have rn: "run E (Flush E w) cs = (rs, w')"
      using Cons.prems CallFlush by simp
    show ?thesis
      using step [OF Flush_status rn] CallFlush by simp
  next
    case (CallHeader f)
    have rn: "run E (setHeader w (f (header (RW w)))) cs = (rs, w')"
      using Cons.prems CallHeader by simp
    have "statusStep w (setHeader w (f (header (RW w))))"
      by (simp add: statusStep_def)
    then show ?thesis
      using step [OF _ rn] CallHeader by simp
  qed
qed

lemma run_append:
  "run E w (xs @ ys) =
    (case run E w xs of (r1, w1) \<Rightarrow> (case run E w1 ys of (r2, w2) \<Rightarrow> (r1 @ r2, w2)))"
  by (induction E w xs rule: run.induct) (auto split: prod.splits)

lemma statuses_append [simp]: "statuses (xs @ ys) = statuses xs @ statuses ys"
  by (induction xs rule: statuses.induct) simp_all

subsection \<open>Unfolding the model on concrete inputs\<close>

lemmas model_defs =
  Write_def Close_def Flush_def Hijack_def WriteHeader_def startPlain_def startGzip_def
  init_def emitCode_def setHeader_def committed_def newWriter_def poolGet_def poolPut_def
  sinkWrite_def sinkWriteHeader_def sinkFlush_def sinkHijack_def
  Header_Get_def Header_Set_def Header_Del_def contentEncoding_def contentType_def
  contentLength_def Atoi_def len_def bytesOf_def appendBytes_def Let_def

lemmas double_defs =
  toyGzip_def testEnv_def handleContentType_spec_def bareMediaType_def testCfg_def smallCfg_def
  jsonOnlyCfg_def okSink_def brSink_def xmlSink_def shortSink_def

lemma EqualFold_ToLower: "EqualFold a b \<longleftrightarrow> ToLower a = ToLower b"
  by (induction a b rule: EqualFold.induct) (simp_all add: ToLower_def)

lemma newWriter_simps [simp]:
  "RW (newWriter c s) = s" "cfg (newWriter c s) = c" "gw (newWriter c s) = None"
  "code (newWriter c s) = 0" "buf (newWriter c s) = None" "ignore (newWriter c s) = False"
  by (simp_all add: newWriter_def)

lemma len_None [simp]: "len None = 0"
  by (simp add: len_def)

subsection \<open>A handler that writes no byte\<close>

lemma Write_nothing:
  assumes "Write E w [] = (r, w')" and "gw w = None" "code w = 0" "buf w = None"
  shows "gw w' = None \<and> code w' = 0 \<and> buf w' = None"
  using assms(1)
proof (cases rule: Write_cases)
  case (compressed g g' s')
  then show ?thesis using assms(2) by simp
next
  case passthrough
  then show ?thesis using assms by simp
next
  case withheld
  then show ?thesis using assms by (simp add: appendBytes_def)
next
  case (commitGzip err)
  have "len (buf (sniffed E (buffered w []))) \<le> 0"
    using assms(4) by (simp add: appendBytes_def)
  then show ?thesis
    using startGzip_effect [OF commitGzip(3)] assms by (simp add: appendBytes_def)
next
  case (commitPlain err)
  then show ?thesis using startPlain_effect [OF commitPlain(3)] assms by simp
next
  case (commitPlainSniffed err)
  then show ?thesis using startPlain_effect [OF commitPlainSniffed(3)] assms by simp
qed

lemma run_nothing:
  assumes "run E w cs = (rs, w')"
    and "\<forall>x \<in> set cs. x = CallFlush \<or> x = CallWrite [] \<or> (\<exists>f. x = CallHeader f)"
    and "gw w = None" "code w = 0" "buf w = None"
  shows "gw w' = None \<and> code w' = 0 \<and> buf w' = None"
  using assms
proof (induction cs arbitrary: w rs)
  case Nil
  then show ?case by simp
next
  case (Cons c cs)
  from Cons.prems(2) consider "c = CallFlush" | "c = CallWrite []" | f where "c = CallHeader f"
    by auto
  then show ?case
  proof cases
    case 1
    have rn: "run E (Flush E w) cs = (rs, w')"
      using Cons.prems(1) 1 by simp
    show ?thesis
      using Cons.IH [OF rn] Cons.prems(2-5) Flush_plain [OF Cons.prems(3), of E] by simp
  next
    case 2
    obtain r w1 where wr: "Write E w [] = (r, w1)" by (cases "Write E w []")
    obtain rs1 where rn: "run E w1 cs = (rs1, w')"
      using Cons.prems(1) 2 wr by (auto split: prod.splits)
    show ?thesis
      using Cons.IH [OF rn] Cons.prems(2) Write_nothing [OF wr Cons.prems(3-5)] by simp
  next
    case 3
    have rn: "run E (setHeader w (f (header (RW w)))) cs = (rs, w')"
      using Cons.prems(1) 3 by simp
    show ?thesis
      using Cons.IH [OF rn] Cons.prems(2-5) by simp
  qed
qed

lemma run_without_writes:
  assumes "run E w cs = (rs, w')" and "writes cs = []" "statuses cs = []"
    and "gw w = None" "\<not> ignore w"
  shows "w' = setHeader w (handlerHeaders cs (header (RW w)))"
  using assms
proof (induction cs arbitrary: w rs)
  case Nil
  then show ?case by (simp add: setHeader_def)
next
  case (Cons c cs)
  show ?case
  proof (cases c)
    case (CallWrite b)
    then show ?thesis using Cons.prems(2) by simp
  next
    case (CallWriteHeader k)
    then show ?thesis using Cons.prems(3) by simp
  next
    case CallFlush
    have "Flush E w = w" using Cons.prems(4,5) by (simp add: Flush_def)
    then have rn: "run E w cs = (rs, w')"
      using Cons.prems(1) CallFlush by simp
    show ?thesis
      using Cons.IH [OF rn] Cons.prems(2-5) CallFlush by simp
  next
    case (CallHeader f)
    have rn: "run E (setHeader w (f (header (RW w)))) cs = (rs, w')"
      using Cons.prems(1) CallHeader by simp
    show ?thesis
      using Cons.IH [OF rn] Cons.prems(2-5) CallHeader by (simp add: setHeader_def)
  qed
qed

lemma Close_nothing:
  assumes "gw w = None" "code w = 0" "buf w = None"
  shows "Close E w = (None, if ignore w then w else w\<lparr>ignore := True\<rparr>)"
  using assms by (simp add: Close_def startPlain_def emitCode_def Let_def)

lemma Write_commits_to_gzip:
  assumes "Write E w b = (r, w1)" and "gw w = None" and "gw w1 \<noteq> None"
  shows "\<exists>err. startGzip E (sniffed E (buffered w b)) = (err, w1)"
  using assms(1)
proof (cases rule: Write_cases)
  case (compressed g g' s')
  then show ?thesis using assms(2) by simp
next
  case passthrough
  then show ?thesis using assms(3) by simp
next
  case withheld
  then show ?thesis using assms(3) by simp
next
  case (commitGzip err)
  then show ?thesis by blast
next
  case (commitPlain err)
  then show ?thesis using startPlain_effect(2) [OF commitPlain(3)] assms(3) by simp
next
  case (commitPlainSniffed err)
  then show ?thesis using startPlain_effect(2) [OF commitPlainSniffed(3)] assms(3) by simp
qed

subsection \<open>Closing twice, for every compressor and sink\<close>

text \<open>
  Without a compressor the second close does nothing; after a compressed commitment it hands
  the buffered bytes to the sink once more, uncompressed.
\<close>

lemma Close_twice_without_compressor:
  assumes "gw w = None"
  shows "Close E (snd (Close E w)) = (None, snd (Close E w))"
proof -
  obtain err w' where cl: "Close E w = (err, w')" by (cases "Close E w")
  have "ignore w'" using Close_plain [OF assms cl] by simp
  then have "Close E w' = (None, w')" by (simp add: Close_def)
  then show ?thesis unfolding cl by simp
qed

lemma Close_twice_after_gzip:
  assumes "gw w = Some g" and "\<not> ignore w" and "buf w = Some x" and "code w = 0"
  shows "trace (RW (snd (Close E (snd (Close E w))))) = trace (RW (snd (Close E w))) @ [SWrite x]"
proof -
  obtain e g' s' where r: "runW (gzClose (gzip E) g) (RW w) = ((e, g'), s')"
    by (metis prod.exhaust)
  have c1: "Close E w = (e, w\<lparr>ResponseWriter := s', cfg := poolPut (cfg w) g', gw := None\<rparr>)"
    using assms r by (simp add: Close_def)
  define w1 where "w1 = w\<lparr>ResponseWriter := s', cfg := poolPut (cfg w) g', gw := None\<rparr>"
  obtain e2 v where sp: "startPlain w1 = (e2, v)" by (cases "startPlain w1")
  have c2: "Close E w1 = (map_option ErrCloseWrite e2, v)"
    using assms sp by (simp add: Close_def w1_def)
  have "trace (RW v) = trace s' @ [SWrite x]"
    using startPlain_effect(10) [OF sp] assms by (simp add: w1_def)
  then show ?thesis unfolding c1 by (simp add: c2 [unfolded w1_def])
qed

subsection \<open>Short writes on the two commit paths\<close>

text \<open>
  \<^verbatim>\<open>startGzip\<close> turns a short write of the compressor into \<^verbatim>\<open>io.ErrShortWrite\<close>; \<^verbatim>\<open>startPlain\<close>
  never does so for the sink, whatever count \<open>n \<ge> 0\<close> the sink returns.
\<close>

lemma startPlain_never_reports_short_write:
  assumes "buf w = Some x"
    and "respond (RW w) (trace (RW (emitCode w))) (header (RW w)) x = (n, None)" and "0 \<le> n"
  shows "fst (startPlain w) = None"
  using assms
  by (simp add: startPlain_def Let_def emitCode_effect sinkWrite_def bytesOf_def len_def
        split: prod.splits)

lemma startGzip_reports_short_write:
  assumes "len (buf w) > 0"
    and "\<And>g s. fst (fst (runW (gzWrite (gzip E) g (bytesOf (buf w))) s)) = (n, None)"
    and "n < len (buf w)"
  shows "fst (startGzip E w) = Some ErrShortWrite"
proof -
  define w3 where "w3 = emitCode (setHeader (setHeader w (Header_Set (header (RW w)) contentEncoding ''gzip''))
        (Header_Del (Header_Set (header (RW w)) contentEncoding ''gzip'') contentLength))"
  have b3: "buf w3 = buf w"
    by (simp add: w3_def emitCode_effect setHeader_def)
  obtain n' e g' s' where r: "runW (gzWrite (gzip E) (fst (init E w3)) (bytesOf (buf (snd (init E w3))))) (RW (snd (init E w3))) = (((n', e), g'), s')"
    by (metis prod.exhaust)
  have ne: "n' = n" "e = None"
    using assms(2) [of "fst (init E w3)" "RW (snd (init E w3))"] r by (simp_all add: init_effect b3)
  have pos: "len (buf w3) > 0" and lt: "n < len (buf (snd (init E w3)))"
    using assms(1,3) b3 by (simp_all add: init_effect)
  show ?thesis
    using pos lt r [unfolded ne]
    by (simp add: startGzip_def Let_def w3_def setHeader_def split_beta)
qed

subsection \<open>What the sink receives before and after the commitment\<close>

text \<open>
  Before the commitment a \<^verbatim>\<open>Write\<close> either withholds its bytes and touches nothing else, or
  commits: the sink receives the pending status, if there is one, and then only writes. After
  the commitment no operation of the writer passes a status to the sink.
\<close>

lemma len_appendBytes: "b \<noteq> [] \<Longrightarrow> len (appendBytes x b) > 0"
  by (cases x; cases b) (simp_all add: len_def appendBytes_def)

lemma startGzip_installs:
  assumes "startGzip E w = (err, w')" and "len (buf w) > 0"
  shows "gw w' \<noteq> None"
  using assms
  by (auto simp: startGzip_def Let_def emitCode_effect split_beta)

lemma startPlain_trace:
  assumes "startPlain w = (err, w')"
  shows "\<exists>ws. trace (RW w') =
      trace (RW w) @ (if code w \<noteq> 0 then [SWriteHeader (code w)] else []) @ map SWrite ws"
proof (cases "buf w")
  case None
  then show ?thesis
    using startPlain_effect(10) [OF assms] by (intro exI [of _ "[]"]) simp
next
  case (Some x)
  then show ?thesis
    using startPlain_effect(10) [OF assms] by (intro exI [of _ "[x]"]) simp
qed

lemma Write_before_commitment:
  assumes "Write E w b = (r, w')" and "gw w = None" and "\<not> ignore w"
  shows "w' = buffered w b
       \<or> (code w' = 0 \<and> (b \<noteq> [] \<longrightarrow> ignore w' \<or> gw w' \<noteq> None)
          \<and> (\<exists>ws. trace (RW w') =
                trace (RW w) @ (if code w \<noteq> 0 then [SWriteHeader (code w)] else []) @ map SWrite ws))"
  using assms(1)
proof (cases rule: Write_cases)
  case (compressed g g' s')
  then show ?thesis using assms(2) by simp
next
  case passthrough
  then show ?thesis using assms(3) by simp
next
  case withheld
  then show ?thesis by simp
next
  case (commitGzip err)
  note eff = startGzip_effect [OF commitGzip(3)]
  have "b \<noteq> [] \<longrightarrow> gw w' \<noteq> None"
    using startGzip_installs [OF commitGzip(3)] len_appendBytes [of b "buf w"] by simp
  then show ?thesis using eff by (cases "code w = 0") auto
next
  case (commitPlain err)
  show ?thesis
    using startPlain_effect(1,5) [OF commitPlain(3)] startPlain_trace [OF commitPlain(3)]
    by (cases "code w = 0") auto
next
  case (commitPlainSniffed err)
  show ?thesis
    using startPlain_effect(1,5) [OF commitPlainSniffed(3)] startPlain_trace [OF commitPlainSniffed(3)]
    by (cases "code w = 0") auto
qed

lemma Write_after_commitment:
  assumes "Write E w b = (r, w')" and "ignore w \<or> gw w \<noteq> None"
  shows "(ignore w' \<or> gw w' \<noteq> None)
       \<and> (\<exists>es. trace (RW w') = trace (RW w) @ es \<and> statusEvents es = [])"
  using assms(1)
proof (cases rule: Write_cases)
  case (compressed g g' s')
  from runW_frame [OF compressed(2)] obtain ws where "trace s' = trace (RW w) @ map SWrite ws"
    by blast
  then show ?thesis using compressed(3) by simp
next
  case passthrough
  then show ?thesis by (simp add: sinkWrite_effect)
next
  case withheld
  then show ?thesis using assms(2) by simp
next
  case (commitGzip err)
  then show ?thesis using assms(2) by simp
next
  case (commitPlain err)
  then show ?thesis using assms(2) by simp
next
  case (commitPlainSniffed err)
  then show ?thesis using assms(2) by simp
qed

lemma Flush_after_commitment:
  assumes "ignore w \<or> gw w \<noteq> None"
  shows "(ignore (Flush E w) \<or> gw (Flush E w) \<noteq> None)
       \<and> (\<exists>es. trace (RW (Flush E w)) = trace (RW w) @ es \<and> statusEvents es = [])"
proof (cases "gw w")
  case None
  then show ?thesis using assms by (simp add: Flush_def sinkFlush_def)
next
  case (Some g)
  obtain e g' s' where r: "runW (gzFlush (gzip E) g) (RW w) = ((e, g'), s')"
    by (metis prod.exhaust)
  from runW_frame [OF r] obtain ws where "trace s' = trace (RW w) @ map SWrite ws"
    by blast
  then show ?thesis
    using Some r by (simp add: Flush_def Let_def sinkFlush_def)
qed

lemma run_after_commitment:
  assumes "run E w cs = (rs, w')" and "ignore w \<or> gw w \<noteq> None"
  shows "(ignore w' \<or> gw w' \<noteq> None)
       \<and> (\<exists>es. trace (RW w') = trace (RW w) @ es \<and> statusEvents es = [])"
  using assms
proof (induction cs arbitrary: w rs)
  case Nil
  then show ?case by simp
next
  case (Cons c cs)
  have step: "?case"
    if "run E w1 cs = (rs1, w')" and "ignore w1 \<or> gw w1 \<noteq> None"
      and "\<exists>es. trace (RW w1) = trace (RW w) @ es \<and> statusEvents es = []" for w1 rs1
  proof -
    from Cons.IH [OF that(1,2)] obtain es2 where
      "ignore w' \<or> gw w' \<noteq> None" "trace (RW w') = trace (RW w1) @ es2" "statusEvents es2 = []"
      by blast
    moreover from that(3) obtain es1 where
      "trace (RW w1) = trace (RW w) @ es1" "statusEvents es1 = []"
      by blast
    ultimately show ?thesis
      by (intro conjI exI [of _ "es1 @ es2"]) simp_all
  qed
  show ?case
  proof (cases c)
    case (CallWrite b)
    obtain r w1 where wr: "Write E w b = (r, w1)" by (cases "Write E w b")
    obtain rs1 where rn: "run E w1 cs = (rs1, w')"
      using Cons.prems(1) CallWrite wr by (auto split: prod.splits)
    show ?thesis
      using step [OF rn] Write_after_commitment [OF wr Cons.prems(2)] by blast
  next
    case (CallWriteHeader k)
    have rn: "run E (WriteHeader w k) cs = (rs, w')"
      using Cons.prems(1) CallWriteHeader by simp
    show ?thesis
      using step [OF rn] Cons.prems(2) by (simp add: WriteHeader_frame)
  next
    case CallFlush
    have rn: "run E (Flush E w) cs = (rs, w')"
      using Cons.prems(1) CallFlush by simp
    show ?thesis
      using step [OF rn] Flush_after_commitment [OF Cons.prems(2)] by blast
  next
    case (CallHeader f)
    have rn: "run E (setHeader w (f (header (RW w)))) cs = (rs, w')"
      using Cons.prems(1) CallHeader by simp
    show ?thesis
      using step [OF rn] Cons.prems(2) by simp
  qed
qed

lemma Close_after_commitment:
  assumes "Close E w = (err, w')" and "ignore w \<or> gw w \<noteq> None"
  shows "\<exists>es. trace (RW w') = trace (RW w) @ es \<and> statusEvents es = []"
proof (cases "ignore w")
  case True
  then show ?thesis using assms(1) by (simp add: Close_def)
next
  case False
  then obtain g where g: "gw w = Some g" using assms(2) by auto
  obtain e g' s' where r: "runW (gzClose (gzip E) g) (RW w) = ((e, g'), s')"
    by (metis prod.exhaust)
  have "w' = w\<lparr>ResponseWriter := s', cfg := poolPut (cfg w) g', gw := None\<rparr>"
    using assms(1) False g r by (simp add: Close_def)
  moreover from runW_frame [OF r] obtain ws where "trace s' = trace (RW w) @ map SWrite ws"
    by blast
  ultimately show ?thesis by simp
qed

subsection \<open>The calls received by the sink only grow\<close>

lemma Write_trace_extends:
  assumes "Write E w b = (r, w')"
  shows "\<exists>es. trace (RW w') = trace (RW w) @ es"
proof (cases "ignore w \<or> gw w \<noteq> None")
  case True
  then show ?thesis using Write_after_commitment [OF assms] by blast
next
  case False
  then have "gw w = None" "\<not> ignore w" by simp_all
  from Write_before_commitment [OF assms this] show ?thesis
  proof
    assume "w' = buffered w b"
    then show ?thesis by simp
  next
    assume "code w' = 0 \<and> (b \<noteq> [] \<longrightarrow> ignore w' \<or> gw w' \<noteq> None)
          \<and> (\<exists>ws. trace (RW w') =
                trace (RW w) @ (if code w \<noteq> 0 then [SWriteHeader (code w)] else []) @ map SWrite ws)"
    then show ?thesis by blast
  qed
qed

lemma Flush_trace_extends: "\<exists>es. trace (RW (Flush E w)) = trace (RW w) @ es"
proof (cases "ignore w \<or> gw w \<noteq> None")
  case True
  then show ?thesis using Flush_after_commitment [of w E] by blast
next
  case False
  then show ?thesis by (simp add: Flush_def)
qed

lemma run_trace_extends:
  assumes "run E w cs = (rs, w')"
  shows "\<exists>es. trace (RW w') = trace (RW w) @ es"
  using assms
proof (induction cs arbitrary: w rs)
  case Nil
  then show ?case by simp
next
  case (Cons c cs)
  have step: "?case"
    if "run E w1 cs = (rs1, w')" and "\<exists>es. trace (RW w1) = trace (RW w) @ es" for w1 rs1
  proof -
    from Cons.IH [OF that(1)] obtain es2 where "trace (RW w') = trace (RW w1) @ es2" ..
    moreover from that(2) obtain es1 where "trace (RW w1) = trace (RW w) @ es1" ..
    ultimately show ?thesis by simp
  qed
  show ?case
  proof (cases c)
    case (CallWrite b)
    obtain r w1 where wr: "Write E w b = (r, w1)" by (cases "Write E w b")
    obtain rs1 where rn: "run E w1 cs = (rs1, w')"
      using Cons.prems CallWrite wr by (auto split: prod.splits)
    show ?thesis using step [OF rn Write_trace_extends [OF wr]] .
  next
    case (CallWriteHeader k)
    have rn: "run E (WriteHeader w k) cs = (rs, w')"
      using Cons.prems CallWriteHeader by simp
    show ?thesis using step [OF rn] by (simp add: WriteHeader_frame)
  next
    case CallFlush
    have rn: "run E (Flush E w) cs = (rs, w')"
      using Cons.prems CallFlush by simp
    show ?thesis using step [OF rn Flush_trace_extends] .
  next
    case (CallHeader f)
    have rn: "run E (setHeader w (f (header (RW w)))) cs = (rs, w')"
      using Cons.prems CallHeader by simp
    show ?thesis using step [OF rn] by simp
  qed
qed

lemma Close_trace_extends:
  assumes "Close E w = (err, w')"
  shows "\<exists>es. trace (RW w') = trace (RW w) @ es"
proof (cases "ignore w \<or> gw w \<noteq> None")
  case True
  then show ?thesis using Close_after_commitment [OF assms] by blast
next
  case False
  obtain e v where sp: "startPlain w = (e, v)" by (cases "startPlain w")
  have "w' = v" using assms False sp by (simp add: Close_def)
  then show ?thesis using startPlain_trace [OF sp] by blast
qed

lemma no_status_in_extension:
  assumes "trace (RW w') = trace (RW w) @ es"
    and "statusEvents (trace (RW w')) = statusEvents (trace (RW w))"
  shows "statusEvents es = []"
  using assms by simp

lemma run_without_status:
  assumes "run E w cs = (rs, w')" and "code w = 0" and "statuses cs = []"
  shows "code w' = 0 \<and> statusEvents (trace (RW w')) = statusEvents (trace (RW w))"
proof -
  have "pendingStatus w cs = 0"
    using assms(2,3) by (simp add: pendingStatus_def)
  then show ?thesis using run_status [OF assms(1)] by simp
qed

lemma Close_without_status:
  assumes "Close E w = (err, w')" and "code w = 0"
  shows "statusEvents (trace (RW w')) = statusEvents (trace (RW w))"
  using Close_status [OF assms(1)] assms(2) by (simp add: statusStep_def)

lemma run_untouched_code:
  assumes "run E w cs = (rs, w')" and "trace (RW w') = trace (RW w)"
  shows "code w' = pendingStatus w cs"
  using run_status [OF assms(1)] assms(2) by (auto simp: emitsFirst_def)

subsection \<open>The pending status is emitted first\<close>

text \<open>
  From a writer that has not committed and holds a status: as long as nothing is committed the
  status stays as it is and the sink receives nothing; the commit hands the status to the sink
  before anything else.
\<close>

lemma run_emits_pending:
  assumes "run E w cs = (rs, w')" and "gw w = None" and "\<not> ignore w" and "code w \<noteq> 0"
  shows "(gw w' = None \<and> \<not> ignore w' \<and> code w' = code w \<and> trace (RW w') = trace (RW w))
       \<or> (\<exists>rest. trace (RW w') = trace (RW w) @ SWriteHeader (code w) # rest
            \<and> (statuses cs = [] \<longrightarrow> statusEvents rest = [] \<and> code w' = 0)
            \<and> ([] \<notin> set (writes cs) \<longrightarrow> statusEvents rest = [] \<and> (ignore w' \<or> gw w' \<noteq> None)))"
  using assms
proof (induction cs arbitrary: w rs)
  case Nil
  then show ?case by simp
next
  case (Cons c cs)
  show ?case
  proof (cases c)
    case (CallWrite b)
    obtain r w1 where wr: "Write E w b = (r, w1)" by (cases "Write E w b")
    obtain rs1 where rn: "run E w1 cs = (rs1, w')"
      using Cons.prems(1) CallWrite wr by (auto split: prod.splits)
    from Write_before_commitment [OF wr Cons.prems(2,3)] show ?thesis
    proof
      assume keep: "w1 = buffered w b"
      have "(gw w' = None \<and> \<not> ignore w' \<and> code w' = code w1 \<and> trace (RW w') = trace (RW w1))
       \<or> (\<exists>rest. trace (RW w') = trace (RW w1) @ SWriteHeader (code w1) # rest
            \<and> (statuses cs = [] \<longrightarrow> statusEvents rest = [] \<and> code w' = 0)
            \<and> ([] \<notin> set (writes cs) \<longrightarrow> statusEvents rest = [] \<and> (ignore w' \<or> gw w' \<noteq> None)))"
        using keep Cons.prems(2,3,4) by (intro Cons.IH [OF rn]) simp_all
      then show ?thesis using keep CallWrite by auto
    next
      assume commit: "code w1 = 0 \<and> (b \<noteq> [] \<longrightarrow> ignore w1 \<or> gw w1 \<noteq> None)
          \<and> (\<exists>ws. trace (RW w1) =
                trace (RW w) @ (if code w \<noteq> 0 then [SWriteHeader (code w)] else []) @ map SWrite ws)"
      then obtain ws where t1: "trace (RW w1) = trace (RW w) @ SWriteHeader (code w) # map SWrite ws"
        using Cons.prems(4) by auto
      from run_trace_extends [OF rn] obtain ext where t2: "trace (RW w') = trace (RW w1) @ ext" ..
      have a: "statusEvents ext = [] \<and> code w' = 0" if "statuses cs = []"
        using run_without_status [OF rn _ that] commit no_status_in_extension [OF t2] by simp
      have b: "statusEvents ext = [] \<and> (ignore w' \<or> gw w' \<noteq> None)" if "b \<noteq> []"
      proof -
        have "ignore w1 \<or> gw w1 \<noteq> None" using commit that by simp
        from run_after_commitment [OF rn this] show ?thesis using t2 by auto
      qed
      have "trace (RW w') = trace (RW w) @ SWriteHeader (code w) # (map SWrite ws @ ext)"
        using t1 t2 by simp
      moreover have "statuses (c # cs) = [] \<longrightarrow> statusEvents (map SWrite ws @ ext) = [] \<and> code w' = 0"
        using a CallWrite by simp
      moreover have "[] \<notin> set (writes (c # cs)) \<longrightarrow>
          statusEvents (map SWrite ws @ ext) = [] \<and> (ignore w' \<or> gw w' \<noteq> None)"
        using b CallWrite by auto
      ultimately show ?thesis by blast
    qed
  next
    case (CallWriteHeader k)
    have same: "WriteHeader w k = w" using Cons.prems(4) by (simp add: WriteHeader_def)
    have rn: "run E w cs = (rs, w')"
      using Cons.prems(1) CallWriteHeader same by simp
    show ?thesis using Cons.IH [OF rn Cons.prems(2,3,4)] CallWriteHeader by auto
  next
    case CallFlush
    have same: "Flush E w = w" using Cons.prems(2,3) by (simp add: Flush_def)
    have rn: "run E w cs = (rs, w')"
      using Cons.prems(1) CallFlush same by simp
    show ?thesis using Cons.IH [OF rn Cons.prems(2,3,4)] CallFlush by auto
  next
    case (CallHeader f)
    define w1 where "w1 = setHeader w (f (header (RW w)))"
    have rn: "run E w1 cs = (rs, w')"
      using Cons.prems(1) CallHeader by (simp add: w1_def)
    have "(gw w' = None \<and> \<not> ignore w' \<and> code w' = code w1 \<and> trace (RW w') = trace (RW w1))
       \<or> (\<exists>rest. trace (RW w') = trace (RW w1) @ SWriteHeader (code w1) # rest
            \<and> (statuses cs = [] \<longrightarrow> statusEvents rest = [] \<and> code w' = 0)
            \<and> ([] \<notin> set (writes cs) \<longrightarrow> statusEvents rest = [] \<and> (ignore w' \<or> gw w' \<noteq> None)))"
      using Cons.prems(2,3,4) by (intro Cons.IH [OF rn]) (simp_all add: w1_def)
    then show ?thesis using CallHeader by (simp add: w1_def)
  qed
qed

lemma request_emits_pending:
  assumes "run E w cs = (rs, w')" and "Close E w' = (err, w'')"
    and "gw w = None" and "\<not> ignore w" and "code w \<noteq> 0"
  shows "\<exists>rest. trace (RW w'') = trace (RW w) @ SWriteHeader (code w) # rest
            \<and> (statuses cs = [] \<or> [] \<notin> set (writes cs) \<longrightarrow> statusEvents rest = [])"
  using run_emits_pending [OF assms(1,3,4,5)]
proof
  assume p: "gw w' = None \<and> \<not> ignore w' \<and> code w' = code w \<and> trace (RW w') = trace (RW w)"
  obtain e v where sp: "startPlain w' = (e, v)" by (cases "startPlain w'")
  have "w'' = v" using assms(2) p sp by (simp add: Close_def)
  then obtain ws where "trace (RW w'') = trace (RW w) @ SWriteHeader (code w) # map SWrite ws"
    using startPlain_trace [OF sp] p assms(5) by auto
  then show ?thesis by (intro exI [of _ "map SWrite ws"]) simp
next
  assume "\<exists>rest. trace (RW w') = trace (RW w) @ SWriteHeader (code w) # rest
            \<and> (statuses cs = [] \<longrightarrow> statusEvents rest = [] \<and> code w' = 0)
            \<and> ([] \<notin> set (writes cs) \<longrightarrow> statusEvents rest = [] \<and> (ignore w' \<or> gw w' \<noteq> None))"
  then obtain rest where rest: "trace (RW w') = trace (RW w) @ SWriteHeader (code w) # rest"
      "statuses cs = [] \<longrightarrow> statusEvents rest = [] \<and> code w' = 0"
      "[] \<notin> set (writes cs) \<longrightarrow> statusEvents rest = [] \<and> (ignore w' \<or> gw w' \<noteq> None)"
    by blast
  from Close_trace_extends [OF assms(2)] obtain ext where ext: "trace (RW w'') = trace (RW w') @ ext" ..
  have a: "statusEvents ext = []" if "statuses cs = []"
    using Close_without_status [OF assms(2)] rest(2) that no_status_in_extension [OF ext] by simp
  have b: "statusEvents ext = []" if "[] \<notin> set (writes cs)"
  proof -
    have "ignore w' \<or> gw w' \<noteq> None" using rest(3) that by simp
    from Close_after_commitment [OF assms(2) this] show ?thesis using ext by auto
  qed
  have "trace (RW w'') = trace (RW w) @ SWriteHeader (code w) # (rest @ ext)"
    using rest(1) ext by simp
  moreover have "statuses cs = [] \<or> [] \<notin> set (writes cs) \<longrightarrow> statusEvents (rest @ ext) = []"
    using a b rest(2,3) by auto
  ultimately show ?thesis by blast
qed

subsection \<open>Set-status calls that change nothing\<close>

text \<open>
  While the sink has received nothing, a set-status call that passes 0, or that comes after one
  that passed a non-zero value, leaves the writer as it is.
\<close>

lemma untouched_between:
  assumes "trace (RW w1) = trace (RW w) @ es1" and "trace (RW w') = trace (RW w1) @ es2"
    and "trace (RW w') = trace (RW w)"
  shows "trace (RW w1) = trace (RW w)" "trace (RW w') = trace (RW w1)"
  using assms by simp_all

lemma statusStep_untouched:
  assumes "statusStep w w1" and "trace (RW w1) = trace (RW w)"
  shows "code w1 = code w"
  using assms by (auto simp: statusStep_def)

lemma run_withoutStatus:
  assumes "run E w cs = (rs, w')" and "code w \<noteq> 0" and "trace (RW w') = trace (RW w)"
  shows "run E w (withoutStatus cs) = (rs, w')"
  using assms
proof (induction cs arbitrary: w rs)
  case Nil
  then show ?case by simp
next
  case (Cons c cs)
  show ?case
  proof (cases c)
    case (CallWrite b)
    obtain r w1 where wr: "Write E w b = (r, w1)" by (cases "Write E w b")
    obtain rs1 where rn: "run E w1 cs = (rs1, w')" and rs: "rs = r # rs1"
      using Cons.prems(1) CallWrite wr by (auto split: prod.splits)
    from Write_trace_extends [OF wr] run_trace_extends [OF rn] obtain es1 es2 where
      "trace (RW w1) = trace (RW w) @ es1" "trace (RW w') = trace (RW w1) @ es2"
      by blast
    note un = untouched_between [OF this Cons.prems(3)]
    have "code w1 \<noteq> 0"
      using statusStep_untouched [OF Write_status [OF wr] un(1)] Cons.prems(2) by simp
    from Cons.IH [OF rn this un(2)] show ?thesis
      using CallWrite wr rs by simp
  next
    case (CallWriteHeader k)
    have same: "WriteHeader w k = w" using Cons.prems(2) by (simp add: WriteHeader_def)
    have rn: "run E w cs = (rs, w')"
      using Cons.prems(1) CallWriteHeader same by simp
    from Cons.IH [OF rn Cons.prems(2,3)] show ?thesis
      using CallWriteHeader by simp
  next
    case CallFlush
    have rn: "run E (Flush E w) cs = (rs, w')"
      using Cons.prems(1) CallFlush by simp
    from Flush_trace_extends [of E w] run_trace_extends [OF rn] obtain es1 es2 where
      "trace (RW (Flush E w)) = trace (RW w) @ es1" "trace (RW w') = trace (RW (Flush E w)) @ es2"
      by blast
    note un = untouched_between [OF this Cons.prems(3)]
    have "code (Flush E w) \<noteq> 0"
      using statusStep_untouched [OF Flush_status un(1)] Cons.prems(2) by simp
    from Cons.IH [OF rn this un(2)] show ?thesis
      using CallFlush by simp
  next
    case (CallHeader f)
    have rn: "run E (setHeader w (f (header (RW w)))) cs = (rs, w')"
      using Cons.prems(1) CallHeader by simp
    have "run E (setHeader w (f (header (RW w)))) (withoutStatus cs) = (rs, w')"
      using Cons.prems(2,3) by (intro Cons.IH [OF rn]) simp_all
    then show ?thesis using CallHeader by simp
  qed
qed

lemma run_firstStatusOnly:
  assumes "run E w cs = (rs, w')" and "code w = 0" and "trace (RW w') = trace (RW w)"
  shows "run E w (firstStatusOnly cs) = (rs, w')"
  using assms
proof (induction cs arbitrary: w rs)
  case Nil
  then show ?case by simp
next
  case (Cons c cs)
  show ?case
  proof (cases c)
    case (CallWrite b)
    obtain r w1 where wr: "Write E w b = (r, w1)" by (cases "Write E w b")
    obtain rs1 where rn: "run E w1 cs = (rs1, w')" and rs: "rs = r # rs1"
      using Cons.prems(1) CallWrite wr by (auto split: prod.splits)
    from Write_trace_extends [OF wr] run_trace_extends [OF rn] obtain es1 es2 where
      "trace (RW w1) = trace (RW w) @ es1" "trace (RW w') = trace (RW w1) @ es2"
      by blast
    note un = untouched_between [OF this Cons.prems(3)]
    have "code w1 = 0"
      using statusStep_untouched [OF Write_status [OF wr] un(1)] Cons.prems(2) by simp
    from Cons.IH [OF rn this un(2)] show ?thesis
      using CallWrite wr rs by simp
  next
    case (CallWriteHeader k)
    show ?thesis
    proof (cases "k = 0")
      case True
      have same: "WriteHeader w k = w" using Cons.prems(2) True by (simp add: WriteHeader_def)
      have rn: "run E w cs = (rs, w')"
        using Cons.prems(1) CallWriteHeader same by simp
      from Cons.IH [OF rn Cons.prems(2,3)] show ?thesis
        using CallWriteHeader True by simp
    next
      case False
      have rn: "run E (WriteHeader w k) cs = (rs, w')"
        using Cons.prems(1) CallWriteHeader by simp
      have "run E (WriteHeader w k) (withoutStatus cs) = (rs, w')"
        using Cons.prems(2,3) False
        by (intro run_withoutStatus [OF rn]) (simp_all add: WriteHeader_def)
      then show ?thesis using CallWriteHeader False by simp
    qed
  next
    case CallFlush
    have rn: "run E (Flush E w) cs = (rs, w')"
      using Cons.prems(1) CallFlush by simp
    from Flush_trace_extends [of E w] run_trace_extends [OF rn] obtain es1 es2 where
      "trace (RW (Flush E w)) = trace (RW w) @ es1" "trace (RW w') = trace (RW (Flush E w)) @ es2"
      by blast
    note un = untouched_between [OF this Cons.prems(3)]
    have "code (Flush E w) = 0"
      using statusStep_untouched [OF Flush_status un(1)] Cons.prems(2) by simp
    from Cons.IH [OF rn this un(2)] show ?thesis
      using CallFlush by simp
  next
    case (CallHeader f)
    have rn: "run E (setHeader w (f (header (RW w)))) cs = (rs, w')"
      using Cons.prems(1) CallHeader by simp
    have "run E (setHeader w (f (header (RW w)))) (firstStatusOnly cs) = (rs, w')"
      using Cons.prems(2,3) by (intro Cons.IH [OF rn]) simp_all
    then show ?thesis using CallHeader by simp
  qed
qed

section \<open>Claims\<close>

subsection \<open>C1: small responses with no declared length\<close>

text \<open>
  Claim C1, as stated, fails. The sink declares no content length and the handler writes one
  byte, far below the threshold of 1400. In the first case the response already carries
  \<^verbatim>\<open>Content-Encoding: br\<close>, so the guard \<^verbatim>\<open>ce == ""\<close> of \<^verbatim>\<open>Write\<close> is false; in the second it
  carries \<^verbatim>\<open>Content-Type: text/xml\<close> and the allow-list holds \<^verbatim>\<open>application/json\<close> only. In both
  the very first write commits to passthrough: \<open>ignore\<close> is set and the byte is already at
  the sink. The write is not withheld.
\<close>

theorem small_response_commits_counterexample:
  "Header_Get (header brSink) contentLength = []
   \<and> int (length ''a'') < minSize testCfg
   \<and> ignore (snd (Write testEnv (newWriter testCfg brSink) ''a''))
   \<and> trace (ResponseWriter (snd (Write testEnv (newWriter testCfg brSink) ''a''))) = [SWrite ''a'']
   \<and> Header_Get (header xmlSink) contentLength = []
   \<and> Header_Get (header xmlSink) contentEncoding = []
   \<and> int (length ''a'') < minSize jsonOnlyCfg
   \<and> ignore (snd (Write testEnv (newWriter jsonOnlyCfg xmlSink) ''a''))
   \<and> trace (ResponseWriter (snd (Write testEnv (newWriter jsonOnlyCfg xmlSink) ''a''))) = [SWrite ''a'']"
  by (simp add: model_defs double_defs equals_def)

text \<open>
  Claim C1, amended. A handler makes any sequence of \<^verbatim>\<open>Write\<close>, \<^verbatim>\<open>WriteHeader\<close> and \<^verbatim>\<open>Flush\<close> calls
  and of header changes on a fresh writer; the response declares no content length, at the
  start or by any of the changes, and the handler writes fewer bytes in total than \<open>minSize\<close>;
  then the writer is closed. Whatever else the headers say: the bytes handed to the sink are
  exactly the bytes the handler wrote, no compressor was ever acquired (\<open>gw\<close> is \<^verbatim>\<open>nil\<close> before
  and after the close and the pool is as it was), and the header map is what the handler made
  of it, so the writer has set no content encoding. When moreover, throughout, no content
  encoding is declared and the content type is absent or accepted by the allow-list, every
  \<^verbatim>\<open>Write\<close> returned \<^verbatim>\<open>(len(b), nil)\<close> and, before the close, nothing was committed: the sink has
  received no call and \<open>ignore\<close> is false.
\<close>

theorem small_response_passthrough:
  assumes "Header_Get (header s) contentLength = []"
    and "\<forall>f h. CallHeader f \<in> set cs \<longrightarrow> Header_Get h contentLength = [] \<longrightarrow>
           Header_Get (f h) contentLength = []"
    and "int (length (written cs)) < minSize c"
  shows "case run E (newWriter c s) cs of (rs, w) \<Rightarrow>
         case Close E w of (err, w') \<Rightarrow>
           body (trace (ResponseWriter w')) = body (trace s) @ written cs
         \<and> gw w = None \<and> gw w' = None \<and> cfg w' = c
         \<and> header (ResponseWriter w') = handlerHeaders cs (header s)
         \<and> (compressible E c (header s) \<and>
            (\<forall>f h. CallHeader f \<in> set cs \<longrightarrow> compressible E c h \<longrightarrow> compressible E c (f h))
            \<longrightarrow> rs = map (\<lambda>b. (int (length b), None)) (writes cs)
                \<and> ResponseWriter w = s\<lparr>header := handlerHeaders cs (header s)\<rparr>
                \<and> \<not> ignore w)"
proof -
  obtain rs w where rn: "run E (newWriter c s) cs = (rs, w)"
    by (cases "run E (newWriter c s) cs")
  obtain err w' where cl: "Close E w = (err, w')"
    by (cases "Close E w")
  have a: "gw w = None \<and> header (RW w) = handlerHeaders cs (header s) \<and> cfg w = c
       \<and> outstanding w = outstanding (newWriter c s) @ written cs"
    using run_small [OF rn] assms by simp
  have b: "gw w' = None \<and> header (RW w') = header (RW w) \<and> cfg w' = cfg w
       \<and> body (trace (RW w')) = outstanding w"
    using Close_plain [OF _ cl] a by simp
  have c: "rs = map (\<lambda>b. (int (length b), None)) (writes cs)
      \<and> RW w = s\<lparr>header := handlerHeaders cs (header s)\<rparr> \<and> \<not> ignore w"
    if "compressible E c (header s)"
      and "\<forall>f h. CallHeader f \<in> set cs \<longrightarrow> compressible E c h \<longrightarrow> compressible E c (f h)"
  proof -
    have "\<forall>f h. CallHeader f \<in> set cs \<longrightarrow>
           Header_Get h contentLength = [] \<and> compressible E (cfg (newWriter c s)) h \<longrightarrow>
           Header_Get (f h) contentLength = [] \<and> compressible E (cfg (newWriter c s)) (f h)"
      using assms(2) that(2) by simp
    then show ?thesis
      using run_withheld [OF rn] assms(1,3) that(1) by simp
  qed
  show ?thesis
    using a b c by (simp add: rn cl outstanding_def)
qed

text \<open>
  The theorem at a concrete handler: two writes of two bytes each with a header set in
  between, threshold 1400.
\<close>

theorem small_response_passthrough_witness:
  "body (trace (ResponseWriter (snd (Close testEnv
      (snd (run testEnv (newWriter testCfg okSink)
        [CallWrite ''te'', CallHeader (\<lambda>h. Header_Set h ''X-Served-By'' ''a''), CallWrite ''st''])))))) = ''test''
   \<and> fst (run testEnv (newWriter testCfg okSink)
        [CallWrite ''te'', CallHeader (\<lambda>h. Header_Set h ''X-Served-By'' ''a''), CallWrite ''st''])
     = [(2, None), (2, None)]
   \<and> trace (ResponseWriter (snd (run testEnv (newWriter testCfg okSink)
        [CallWrite ''te'', CallHeader (\<lambda>h. Header_Set h ''X-Served-By'' ''a''), CallWrite ''st'']))) = []"
proof -
  define cs where "cs = [CallWrite ''te'', CallHeader (\<lambda>h. Header_Set h ''X-Served-By'' ''a''), CallWrite ''st'']"
  have h1: "Header_Get (header okSink) contentLength = []"
    by (simp add: model_defs double_defs)
  have h2: "\<forall>f h. CallHeader f \<in> set cs \<longrightarrow> Header_Get h contentLength = [] \<longrightarrow>
           Header_Get (f h) contentLength = []"
    by (simp add: cs_def Header_Get_def Header_Set_def contentLength_def)
  have h3: "int (length (written cs)) < minSize testCfg"
    by (simp add: cs_def testCfg_def)
  have h4: "compressible testEnv testCfg (header okSink)"
    by (simp add: compressible_def model_defs double_defs)
  have h5: "\<forall>f h. CallHeader f \<in> set cs \<longrightarrow> compressible testEnv testCfg h \<longrightarrow>
           compressible testEnv testCfg (f h)"
    by (simp add: cs_def compressible_def Header_Get_def Header_Set_def contentEncoding_def
          contentType_def double_defs)
  have "body (trace (ResponseWriter (snd (Close testEnv (snd (run testEnv (newWriter testCfg okSink) cs))))))
          = ''test''
      \<and> fst (run testEnv (newWriter testCfg okSink) cs) = [(2, None), (2, None)]
      \<and> trace (ResponseWriter (snd (run testEnv (newWriter testCfg okSink) cs))) = []"
    using small_response_passthrough [OF h1 h2 h3, where E = testEnv] h4 h5
    by (simp add: split_beta) (simp add: cs_def okSink_def)
  then show ?thesis by (simp only: cs_def)
qed

subsection \<open>C2: the commitment to compression\<close>

text \<open>
  Claim C2. \<^verbatim>\<open>startGzip\<close> is the commitment to compression. From any state of the writer, after
  it returns: the header map holds \<^verbatim>\<open>Content-Encoding: gzip\<close>; \<^verbatim>\<open>Content-Length\<close> is absent; the
  sink has received, after what it had received before, \<^verbatim>\<open>WriteHeader(code)\<close> if a status was
  pending (and nothing of the kind otherwise), followed only by writes of the compressor; and
  the pending code is 0. The cleared code is not emitted again: whatever the handler does next
  without setting a new status, and when the writer is closed, the sink receives no further
  \<^verbatim>\<open>WriteHeader\<close>. The same holds seen from \<^verbatim>\<open>Write\<close>: whenever a \<^verbatim>\<open>Write\<close> on a writer without a
  compressor returns a writer with one, the headers, the pending code and the calls received by
  the sink are as just said.
\<close>

theorem startGzip_sets_encoding_and_emits_status:
  "(case startGzip E w of (err, w') \<Rightarrow>
     header (ResponseWriter w') contentEncoding = Some [''gzip'']
   \<and> Header_Get (header (ResponseWriter w')) contentEncoding = ''gzip''
   \<and> header (ResponseWriter w') contentLength = None
   \<and> code w' = 0
   \<and> (\<exists>ws. trace (ResponseWriter w') =
          trace (ResponseWriter w) @ (if code w \<noteq> 0 then [SWriteHeader (code w)] else [])
            @ map SWrite ws)
   \<and> (\<forall>cs. statuses cs = [] \<longrightarrow>
        (case run E w' cs of (rs, w2) \<Rightarrow>
         case Close E w2 of (err2, w3) \<Rightarrow>
           statusEvents (trace (ResponseWriter w3)) = statusEvents (trace (ResponseWriter w')))))
   \<and> (\<forall>b. case Write E w b of (r, w1) \<Rightarrow>
        gw w = None \<and> gw w1 \<noteq> None \<longrightarrow>
          header (ResponseWriter w1) contentEncoding = Some [''gzip'']
        \<and> header (ResponseWriter w1) contentLength = None
        \<and> code w1 = 0
        \<and> (\<exists>ws. trace (ResponseWriter w1) =
              trace (ResponseWriter w) @ (if code w \<noteq> 0 then [SWriteHeader (code w)] else [])
                @ map SWrite ws))"
proof -
  obtain err w' where sg: "startGzip E w = (err, w')"
    by (cases "startGzip E w")
  note eff = startGzip_effect [OF sg]
  have later: "statusEvents (trace (RW w3)) = statusEvents (trace (RW w'))"
    if "statuses cs = []" and rn: "run E w' cs = (rs, w2)" and cl: "Close E w2 = (err2, w3)"
    for cs rs w2 err2 w3
  proof -
    have "pendingStatus w' cs = 0"
      using eff that(1) by (simp add: pendingStatus_def)
    then have "statusEvents (trace (RW w2)) = statusEvents (trace (RW w')) \<and> code w2 = 0"
      using run_status [OF rn] by simp
    then show ?thesis
      using Close_status [OF cl] by (simp add: statusStep_def)
  qed
  have never: "\<forall>cs. statuses cs = [] \<longrightarrow>
        (case run E w' cs of (rs, w2) \<Rightarrow>
         case Close E w2 of (err2, w3) \<Rightarrow>
           statusEvents (trace (RW w3)) = statusEvents (trace (RW w')))"
    using later by (auto split: prod.splits)
  have viaWrite: "header (RW w1) contentEncoding = Some [''gzip'']
        \<and> header (RW w1) contentLength = None \<and> code w1 = 0
        \<and> (\<exists>ws. trace (RW w1) =
              trace (RW w) @ (if code w \<noteq> 0 then [SWriteHeader (code w)] else []) @ map SWrite ws)"
    if wr: "Write E w b = (r, w1)" and "gw w = None" "gw w1 \<noteq> None" for b r w1
  proof -
    from Write_commits_to_gzip [OF that] obtain e where
      "startGzip E (sniffed E (buffered w b)) = (e, w1)" ..
    from startGzip_effect [OF this] show ?thesis
      by (cases "code w = 0") auto
  qed
  have "\<forall>b. case Write E w b of (r, w1) \<Rightarrow>
        gw w = None \<and> gw w1 \<noteq> None \<longrightarrow>
          header (RW w1) contentEncoding = Some [''gzip'']
        \<and> header (RW w1) contentLength = None \<and> code w1 = 0
        \<and> (\<exists>ws. trace (RW w1) =
              trace (RW w) @ (if code w \<noteq> 0 then [SWriteHeader (code w)] else []) @ map SWrite ws)"
    using viaWrite by (auto split: prod.splits)
  then show ?thesis
    using eff never by (simp add: sg Header_Get_def)
qed

text \<open>
  The theorem at a writer with status 404 pending, five bytes buffered and a declared length,
  followed by a write, a flush and the close; and at a \<^verbatim>\<open>Write\<close> of five bytes that commits to
  compression.
\<close>

theorem startGzip_sets_encoding_and_emits_status_witness:
  "Header_Get (header (ResponseWriter (snd (startGzip testEnv pendingGzip)))) contentEncoding = ''gzip''
   \<and> header (ResponseWriter (snd (startGzip testEnv pendingGzip))) contentLength = None
   \<and> trace (ResponseWriter (snd (startGzip testEnv pendingGzip))) = [SWriteHeader 404, SWrite ''GZolleh'']
   \<and> statusEvents (trace (ResponseWriter (snd (Close testEnv
        (snd (run testEnv (snd (startGzip testEnv pendingGzip)) [CallWrite ''x'', CallFlush]))))))
     = [SWriteHeader 404]
   \<and> gw (snd (Write testEnv pendingWrite ''hello'')) = Some True
   \<and> header (ResponseWriter (snd (Write testEnv pendingWrite ''hello''))) contentEncoding = Some [''gzip'']
   \<and> header (ResponseWriter (snd (Write testEnv pendingWrite ''hello''))) contentLength = None"
proof -
  have tr: "trace (ResponseWriter (snd (startGzip testEnv pendingGzip))) = [SWriteHeader 404, SWrite ''GZolleh'']"
    by (simp add: pendingGzip_def model_defs double_defs)
  have gz: "gw pendingWrite = None" "gw (snd (Write testEnv pendingWrite ''hello'')) = Some True"
    by (simp_all add: pendingWrite_def model_defs double_defs)
  note inst = startGzip_sets_encoding_and_emits_status [where E = testEnv and w = pendingGzip]
  have "\<forall>cs. statuses cs = [] \<longrightarrow>
          statusEvents (trace (ResponseWriter (snd (Close testEnv
            (snd (run testEnv (snd (startGzip testEnv pendingGzip)) cs))))))
          = statusEvents (trace (ResponseWriter (snd (startGzip testEnv pendingGzip))))"
    using inst by (simp add: split_beta)
  then have later: "statuses [CallWrite ''x'', CallFlush] = [] \<longrightarrow>
          statusEvents (trace (ResponseWriter (snd (Close testEnv
            (snd (run testEnv (snd (startGzip testEnv pendingGzip)) [CallWrite ''x'', CallFlush]))))))
          = statusEvents (trace (ResponseWriter (snd (startGzip testEnv pendingGzip))))"
    by blast
  have "\<forall>b. gw pendingWrite = None \<and> gw (snd (Write testEnv pendingWrite b)) \<noteq> None \<longrightarrow>
          header (ResponseWriter (snd (Write testEnv pendingWrite b))) contentEncoding = Some [''gzip'']
        \<and> header (ResponseWriter (snd (Write testEnv pendingWrite b))) contentLength = None"
    using startGzip_sets_encoding_and_emits_status [where E = testEnv and w = pendingWrite]
    by (simp add: split_beta)
  then have viaWrite: "gw pendingWrite = None \<and> gw (snd (Write testEnv pendingWrite ''hello'')) \<noteq> None \<longrightarrow>
          header (ResponseWriter (snd (Write testEnv pendingWrite ''hello''))) contentEncoding = Some [''gzip'']
        \<and> header (ResponseWriter (snd (Write testEnv pendingWrite ''hello''))) contentLength = None"
    by blast
  show ?thesis
    using inst tr later viaWrite gz by (simp add: split_beta)
qed

subsection \<open>C3: closing twice\<close>

text \<open>
  Claim C3 does not hold of the code after a compressed commitment. With threshold 4, the
  handler writes \<^verbatim>\<open>"test"\<close>: the writer commits to compression (\<open>gw\<close> is set). The first
  \<^verbatim>\<open>Close\<close> finalises the compressor and sets \<open>gw\<close> to \<^verbatim>\<open>nil\<close>, but \<open>ignore\<close> is still false
  and \<open>buf\<close> still holds the bytes; the second \<^verbatim>\<open>Close\<close> therefore takes the branch
  \<^verbatim>\<open>w.gw == nil\<close>, calls \<^verbatim>\<open>startPlain\<close>, and the uncompressed \<^verbatim>\<open>"test"\<close> is written to the sink
  after the compressed stream.
\<close>

theorem second_close_after_gzip_writes_raw_buffer:
  "gw (snd (Write testEnv (newWriter smallCfg okSink) ''test'')) = Some True
   \<and> trace (ResponseWriter (snd (Close testEnv (snd (Write testEnv (newWriter smallCfg okSink) ''test'')))))
       = [SWrite ''GZtset'', SWrite ''END'']
   \<and> trace (ResponseWriter (snd (Close testEnv (snd (Close testEnv
        (snd (Write testEnv (newWriter smallCfg okSink) ''test'')))))))
       = [SWrite ''GZtset'', SWrite ''END'', SWrite ''test'']"
  by (simp add: model_defs double_defs)

subsection \<open>C4: which status is emitted\<close>

text \<open>
  Claim C4, as stated, fails. With a threshold of 4 the handler writes four bytes, which commits
  the writer to compression, and then makes the first and only set-status call of the request,
  \<^verbatim>\<open>WriteHeader(404)\<close>: when the writer is closed the sink has received the compressed body and
  no \<^verbatim>\<open>WriteHeader\<close> at all, so the value passed to the first call is not emitted. And 0 is the
  value the writer keeps for "no status recorded": after \<^verbatim>\<open>WriteHeader(0)\<close> and
  \<^verbatim>\<open>WriteHeader(404)\<close> on a fresh writer the close emits 404, the value of the second call.
\<close>

theorem first_status_counterexample:
  "trace (ResponseWriter (snd (Close testEnv
      (snd (run testEnv (newWriter smallCfg okSink) [CallWrite ''test'', CallWriteHeader 404])))))
   = [SWrite ''GZtset'', SWrite ''END'']
   \<and> trace (ResponseWriter (snd (Close testEnv
      (snd (run testEnv (newWriter testCfg okSink) [CallWriteHeader 0, CallWriteHeader 404])))))
   = [SWriteHeader 404]"
  by (simp add: model_defs double_defs)

text \<open>
  Claim C4, amended. A request is the calls \<open>pre\<close>, then the calls \<open>post\<close>, then \<^verbatim>\<open>Close\<close>, on a
  fresh writer. The calls of \<open>pre\<close> are made before commitment: when the last of them returns the
  writer has no compressor, has not switched to passthrough, and the sink has received no call
  (\<open>pre\<close> may hold withheld writes, flushes and header changes besides the set-status calls).
  Then:

  \<^item> the code the writer remembers is the first non-zero value passed to \<^verbatim>\<open>WriteHeader\<close> in \<open>pre\<close>
    (0, "no status recorded", when there is none);

  \<^item> every other set-status call of \<open>pre\<close> is ignored: the request without them hands the same
    results to the handler and reaches the same state of the writer and of the sink;

  \<^item> when that value is not 0, \<^verbatim>\<open>WriteHeader\<close> with that value is the first call the sink
    receives in the request, before any byte of the body, whatever \<open>post\<close> is; and it is the
    only \<^verbatim>\<open>WriteHeader\<close> the sink receives when \<open>post\<close> sets no status or writes no empty slice;

  \<^item> when that value is 0 and \<open>post\<close> sets no status, the sink receives no \<^verbatim>\<open>WriteHeader\<close>.
\<close>

theorem first_nonzero_status_is_emitted:
  assumes "run E (newWriter c s) pre = (rs, w)"
    and "gw w = None" and "\<not> ignore w" and "trace (ResponseWriter w) = trace s"
    and "run E (newWriter c s) (pre @ post) = (rs', w')"
    and "Close E w' = (err, w'')"
  shows "code w = firstStatus (statuses pre)
   \<and> run E (newWriter c s) (firstStatusOnly pre @ post) = (rs', w')
   \<and> (firstStatus (statuses pre) \<noteq> 0 \<longrightarrow>
        (\<exists>rest. trace (ResponseWriter w'') =
                  trace s @ SWriteHeader (firstStatus (statuses pre)) # rest
           \<and> (statuses post = [] \<or> [] \<notin> set (writes post) \<longrightarrow> statusEvents rest = [])))
   \<and> (firstStatus (statuses pre) = 0 \<and> statuses post = [] \<longrightarrow>
        statusEvents (trace (ResponseWriter w'')) = statusEvents (trace s))"
proof -
  define k where "k = firstStatus (statuses pre)"
  have "code w = pendingStatus (newWriter c s) pre"
    using assms(1,4) by (intro run_untouched_code) (simp_all add: newWriter_def)
  then have ck: "code w = k"
    by (simp add: pendingStatus_def newWriter_def k_def)
  obtain rs2 where rn: "run E w post = (rs2, w')"
    using assms(1,5) by (auto simp: run_append split: prod.splits)
  have emitted: "\<exists>rest. trace (RW w'') = trace s @ SWriteHeader k # rest
           \<and> (statuses post = [] \<or> [] \<notin> set (writes post) \<longrightarrow> statusEvents rest = [])"
    if "k \<noteq> 0"
    using request_emits_pending [OF rn assms(6,2,3)] that ck assms(4) by simp
  have silent: "statusEvents (trace (RW w'')) = statusEvents (trace s)"
    if "k = 0" and "statuses post = []"
  proof -
    have "code w' = 0 \<and> statusEvents (trace (RW w')) = statusEvents (trace (RW w))"
      using that ck by (intro run_without_status [OF rn]) simp_all
    then show ?thesis
      using Close_without_status [OF assms(6)] assms(4) by simp
  qed
  have "run E (newWriter c s) (firstStatusOnly pre) = (rs, w)"
    using assms(1,4) by (intro run_firstStatusOnly) (simp_all add: newWriter_def)
  then have ignored: "run E (newWriter c s) (firstStatusOnly pre @ post) = (rs', w')"
    using assms(1,5) by (simp add: run_append)
  show ?thesis
    using ck ignored emitted silent unfolding k_def by blast
qed

text \<open>
  The theorem at three concrete requests. With threshold 4: a withheld write of two bytes, then
  \<^verbatim>\<open>WriteHeader\<close> with 0, 500 and 404, all before commitment; then a write that commits to
  compression, \<^verbatim>\<open>WriteHeader(200)\<close>, and one more write. The sink receives \<^verbatim>\<open>WriteHeader(500)\<close>
  first and no other status, and the request without the calls that passed 0 and 404 ends in
  the same state. With threshold 1400: \<^verbatim>\<open>WriteHeader(500)\<close>, \<^verbatim>\<open>WriteHeader(404)\<close> and the close; the
  sink receives \<^verbatim>\<open>WriteHeader(500)\<close> and nothing else. With threshold 4 again: a withheld write,
  \<^verbatim>\<open>WriteHeader(0)\<close> and a write that commits; the sink receives the compressed body and no status.
\<close>

theorem first_nonzero_status_is_emitted_witness:
  "code (snd (run testEnv (newWriter smallCfg okSink)
      [CallWrite ''ab'', CallWriteHeader 0, CallWriteHeader 500, CallWriteHeader 404])) = 500
   \<and> trace (ResponseWriter (snd (Close testEnv
      (snd (run testEnv (newWriter smallCfg okSink)
         ([CallWrite ''ab'', CallWriteHeader 0, CallWriteHeader 500, CallWriteHeader 404]
          @ [CallWrite ''cd'', CallWriteHeader 200, CallWrite ''e'']))))))
     = [SWriteHeader 500, SWrite ''GZdcba'', SWrite ''e'', SWrite ''END'']
   \<and> firstStatusOnly [CallWrite ''ab'', CallWriteHeader 0, CallWriteHeader 500, CallWriteHeader 404]
     = [CallWrite ''ab'', CallWriteHeader 500]
   \<and> snd (run testEnv (newWriter smallCfg okSink)
         ([CallWrite ''ab'', CallWriteHeader 500]
          @ [CallWrite ''cd'', CallWriteHeader 200, CallWrite ''e'']))
     = snd (run testEnv (newWriter smallCfg okSink)
         ([CallWrite ''ab'', CallWriteHeader 0, CallWriteHeader 500, CallWriteHeader 404]
          @ [CallWrite ''cd'', CallWriteHeader 200, CallWrite ''e'']))
   \<and> trace (ResponseWriter (snd (Close testEnv
      (snd (run testEnv (newWriter testCfg okSink)
         ([CallWriteHeader 500, CallWriteHeader 404] @ []))))))
     = [SWriteHeader 500]
   \<and> trace (ResponseWriter (snd (Close testEnv
      (snd (run testEnv (newWriter smallCfg okSink)
         ([CallWrite ''ab'', CallWriteHeader 0] @ [CallWrite ''cd'']))))))
     = [SWrite ''GZdcba'', SWrite ''END'']"
proof -
  define pre where "pre = [CallWrite ''ab'', CallWriteHeader 0, CallWriteHeader 500, CallWriteHeader 404]"
  define post where "post = [CallWrite ''cd'', CallWriteHeader 200, CallWrite ''e'']"
  define w where "w = snd (run testEnv (newWriter smallCfg okSink) pre)"
  define w' where "w' = snd (run testEnv (newWriter smallCfg okSink) (pre @ post))"
  have before: "run testEnv (newWriter smallCfg okSink) pre
        = (fst (run testEnv (newWriter smallCfg okSink) pre), w)"
      "gw w = None" "\<not> ignore w" "trace (ResponseWriter w) = trace okSink"
    by (simp_all add: w_def pre_def model_defs double_defs)
  have after: "run testEnv (newWriter smallCfg okSink) (pre @ post)
        = (fst (run testEnv (newWriter smallCfg okSink) (pre @ post)), w')"
      "Close testEnv w' = (fst (Close testEnv w'), snd (Close testEnv w'))"
    by (simp_all add: w'_def)
  have ev: "trace (ResponseWriter (snd (Close testEnv w')))
      = [SWriteHeader 500, SWrite ''GZdcba'', SWrite ''e'', SWrite ''END'']"
    by (simp add: w'_def pre_def post_def model_defs double_defs)
  have k: "firstStatus (statuses pre) = 500" "[] \<notin> set (writes post)"
    by (simp_all add: pre_def post_def)
  have only: "firstStatusOnly pre = [CallWrite ''ab'', CallWriteHeader 500]"
    by (simp add: pre_def)
  from first_nonzero_status_is_emitted [OF before after]
  have "code w = firstStatus (statuses pre)"
    and "snd (run testEnv (newWriter smallCfg okSink) (firstStatusOnly pre @ post)) = w'"
    and "\<exists>rest. trace (ResponseWriter (snd (Close testEnv w')))
            = trace okSink @ SWriteHeader (firstStatus (statuses pre)) # rest
          \<and> statusEvents rest = []"
    using k by simp_all
  then have first: "code w = 500"
      "snd (run testEnv (newWriter smallCfg okSink) ([CallWrite ''ab'', CallWriteHeader 500] @ post)) = w'"
      "trace (ResponseWriter (snd (Close testEnv w')))
        = [SWriteHeader 500, SWrite ''GZdcba'', SWrite ''e'', SWrite ''END'']"
    using ev k only by simp_all

  define pre2 where "pre2 = [CallWriteHeader 500, CallWriteHeader 404]"
  define v where "v = snd (run testEnv (newWriter testCfg okSink) pre2)"
  define v' where "v' = snd (run testEnv (newWriter testCfg okSink) (pre2 @ []))"
  have before2: "run testEnv (newWriter testCfg okSink) pre2
        = (fst (run testEnv (newWriter testCfg okSink) pre2), v)"
      "gw v = None" "\<not> ignore v" "trace (ResponseWriter v) = trace okSink"
    by (simp_all add: v_def pre2_def model_defs double_defs)
  have after2: "run testEnv (newWriter testCfg okSink) (pre2 @ [])
        = (fst (run testEnv (newWriter testCfg okSink) (pre2 @ [])), v')"
      "Close testEnv v' = (fst (Close testEnv v'), snd (Close testEnv v'))"
    by (simp_all add: v'_def)
  have ev2: "trace (ResponseWriter (snd (Close testEnv v'))) = [SWriteHeader 500]"
    by (simp add: v'_def pre2_def model_defs double_defs)
  from first_nonzero_status_is_emitted [OF before2 after2]
  have "\<exists>rest. trace (ResponseWriter (snd (Close testEnv v')))
            = trace okSink @ SWriteHeader (firstStatus (statuses pre2)) # rest
          \<and> statusEvents rest = []"
    by (simp add: pre2_def)
  then have second: "trace (ResponseWriter (snd (Close testEnv v'))) = [SWriteHeader 500]"
    using ev2 by simp

  define pre3 where "pre3 = [CallWrite ''ab'', CallWriteHeader 0]"
  define post3 where "post3 = [CallWrite ''cd'']"
  define u where "u = snd (run testEnv (newWriter smallCfg okSink) pre3)"
  define u' where "u' = snd (run testEnv (newWriter smallCfg okSink) (pre3 @ post3))"
  have before3: "run testEnv (newWriter smallCfg okSink) pre3
        = (fst (run testEnv (newWriter smallCfg okSink) pre3), u)"
      "gw u = None" "\<not> ignore u" "trace (ResponseWriter u) = trace okSink"
    by (simp_all add: u_def pre3_def model_defs double_defs)
  have after3: "run testEnv (newWriter smallCfg okSink) (pre3 @ post3)
        = (fst (run testEnv (newWriter smallCfg okSink) (pre3 @ post3)), u')"
      "Close testEnv u' = (fst (Close testEnv u'), snd (Close testEnv u'))"
    by (simp_all add: u'_def)
  have ev3: "trace (ResponseWriter (snd (Close testEnv u'))) = [SWrite ''GZdcba'', SWrite ''END'']"
    by (simp add: u'_def pre3_def post3_def model_defs double_defs)
  from first_nonzero_status_is_emitted [OF before3 after3]
  have "statusEvents (trace (ResponseWriter (snd (Close testEnv u')))) = statusEvents (trace okSink)"
    by (simp add: pre3_def post3_def)
  then have third: "trace (ResponseWriter (snd (Close testEnv u'))) = [SWrite ''GZdcba'', SWrite ''END'']"
    using ev3 by simp

  show ?thesis
    using first second third only
    unfolding w_def w'_def v'_def u'_def pre_def post_def pre2_def pre3_def post3_def
    by simp
qed

subsection \<open>C5: a content encoding is already declared\<close>

text \<open>
  Claim C5. The sink's headers declare a content encoding (any non-empty value, so every
  non-gzip one) when the handler starts, and no later header change of the handler removes it;
  the handler makes any calls, of any size, and the writer is closed. Then: as soon as one
  \<^verbatim>\<open>Write\<close> was made the writer is committed to passthrough; no compressor is ever acquired; the
  headers are what the handler made of them; and the bytes handed to the sink are exactly the
  bytes the handler wrote, before the close and after it.
\<close>

theorem declared_encoding_passthrough:
  assumes "Header_Get (header s) contentEncoding \<noteq> []"
    and "\<forall>f h. CallHeader f \<in> set cs \<longrightarrow> Header_Get h contentEncoding \<noteq> [] \<longrightarrow>
           Header_Get (f h) contentEncoding \<noteq> []"
  shows "case run E (newWriter c s) cs of (rs, w) \<Rightarrow>
         case Close E w of (err, w') \<Rightarrow>
           (writes cs \<noteq> [] \<longrightarrow> ignore w)
         \<and> gw w = None \<and> gw w' = None \<and> cfg w' = c
         \<and> header (ResponseWriter w') = handlerHeaders cs (header s)
         \<and> body (trace (ResponseWriter w)) = body (trace s) @ written cs
         \<and> body (trace (ResponseWriter w')) = body (trace s) @ written cs"
proof -
  obtain rs w where rn: "run E (newWriter c s) cs = (rs, w)"
    by (cases "run E (newWriter c s) cs")
  obtain err w' where cl: "Close E w = (err, w')"
    by (cases "Close E w")
  have a: "gw w = None \<and> header (RW w) = handlerHeaders cs (header s) \<and> cfg w = c
       \<and> (ignore w \<or> buf w = None) \<and> (writes cs \<noteq> [] \<longrightarrow> ignore w)
       \<and> body (trace (RW w)) = body (trace s) @ written cs"
    using run_encoded [OF rn] assms by simp
  have b: "gw w' = None \<and> header (RW w') = header (RW w) \<and> cfg w' = cfg w
       \<and> body (trace (RW w')) = outstanding w"
    using Close_plain [OF _ cl] a by simp
  have "outstanding w = body (trace (RW w))"
    using a by (auto simp: outstanding_def)
  then show ?thesis
    using a b by (simp add: rn cl)
qed

text \<open>
  The theorem at \<^verbatim>\<open>Content-Encoding: br\<close>, changed to \<^verbatim>\<open>deflate\<close> between two writes, with a threshold
  of 4, below the eleven bytes written.
\<close>

theorem declared_encoding_passthrough_witness:
  "ignore (snd (run testEnv (newWriter smallCfg brSink)
      [CallWrite ''hello '', CallHeader (\<lambda>h. Header_Set h contentEncoding ''deflate''), CallWrite ''world'']))
   \<and> body (trace (ResponseWriter (snd (Close testEnv
        (snd (run testEnv (newWriter smallCfg brSink)
          [CallWrite ''hello '', CallHeader (\<lambda>h. Header_Set h contentEncoding ''deflate''),
           CallWrite ''world'']))))))
     = ''hello world''"
proof -
  define cs where "cs = [CallWrite ''hello '', CallHeader (\<lambda>h. Header_Set h contentEncoding ''deflate''),
     CallWrite ''world'']"
  have h: "Header_Get (header brSink) contentEncoding \<noteq> []"
    by (simp add: model_defs double_defs)
  have hk: "\<forall>f h. CallHeader f \<in> set cs \<longrightarrow> Header_Get h contentEncoding \<noteq> [] \<longrightarrow>
           Header_Get (f h) contentEncoding \<noteq> []"
    by (simp add: cs_def Header_Get_def Header_Set_def)
  have "ignore (snd (run testEnv (newWriter smallCfg brSink) cs))
      \<and> body (trace (ResponseWriter (snd (Close testEnv (snd (run testEnv (newWriter smallCfg brSink) cs))))))
        = ''hello world''"
    using declared_encoding_passthrough [OF h hk, where E = testEnv and c = smallCfg]
    by (simp add: split_beta) (simp add: cs_def brSink_def okSink_def)
  then show ?thesis by (simp only: cs_def)
qed

subsection \<open>C6: short writes\<close>

text \<open>
  Claim C6 does not hold of the code on the passthrough path. The sink below accepts one byte
  of every write and reports no error. \<^verbatim>\<open>startPlain\<close> sets \<^verbatim>\<open>w.buf = nil\<close> before it compares
  \<^verbatim>\<open>n < len(w.buf)\<close>, so it compares with 0 and never reports the short write: the close
  that flushes the four buffered bytes returns \<^verbatim>\<open>nil\<close>, and a \<^verbatim>\<open>Write\<close> that commits to
  passthrough returns \<^verbatim>\<open>(4, nil)\<close>.
\<close>

theorem short_write_on_passthrough_is_reported_as_success:
  "respond shortSink [] (header shortSink) ''test'' = (1, None)
   \<and> trace (ResponseWriter (snd (Close testEnv (snd (Write testEnv (newWriter testCfg shortSink) ''test'')))))
       = [SWrite ''test'']
   \<and> fst (Close testEnv (snd (Write testEnv (newWriter testCfg shortSink) ''test''))) = None
   \<and> fst (Write testEnv (newWriter testCfg (shortSink\<lparr>header := [contentEncoding \<mapsto> [''br'']]\<rparr>)) ''test'')
       = (4, None)"
  by (simp add: model_defs double_defs)

subsection \<open>C7: matching content types\<close>

text \<open>
  Claim C7, as stated, fails. The configured matcher is \<^verbatim>\<open>text/html; charset=utf-8\<close> and the
  candidate is \<^verbatim>\<open>text/html; charset=utf-8; level=1\<close>: the base types agree and every configured
  directive is in the candidate with an equal value, so the rule of the claim (\<open>equals_spec\<close>)
  matches; \<^verbatim>\<open>equals\<close> returns false, because the two maps differ in length.
\<close>

theorem equals_spec_counterexample:
  "equals_spec htmlUtf8 ''text/html'' (fmupd ''level'' ''1'' (fmupd ''charset'' ''utf-8'' fmempty))
   \<and> \<not> equals htmlUtf8 ''text/html'' (fmupd ''level'' ''1'' (fmupd ''charset'' ''utf-8'' fmempty))"
  by (simp add: equals_spec_def equals_def htmlUtf8_def fmpred_iff fcard_finsert_if toLowerChar_def)

text \<open>
  Claim C7, amended. \<^verbatim>\<open>equals\<close> holds exactly when the base types are equal and the configured
  matcher either has no directive or has the very directives of the candidate (the same
  number, each with an equal value). Both base types come out of \<^verbatim>\<open>mime.ParseMediaType\<close>, which
  lower-cases them: for base types so normalised, equality is equality up to case of the
  original strings.
\<close>

theorem equals_identical_directives:
  "(equals pct mt ps \<longleftrightarrow> mediaType pct = mt \<and> (params pct = fmempty \<or> params pct = ps))
   \<and> (equals \<lparr>mediaType = ToLower a, params = p\<rparr> (ToLower b) q \<longleftrightarrow>
        EqualFold a b \<and> (p = fmempty \<or> p = q))"
  by (simp add: equals_iff EqualFold_ToLower)

text \<open>
  The theorem at \<^verbatim>\<open>application/json\<close> against \<^verbatim>\<open>Application/Json; charset=utf-8\<close>, and at
  \<^verbatim>\<open>text/html; charset=utf-8\<close> against itself and against \<^verbatim>\<open>text/html\<close>.
\<close>

theorem equals_identical_directives_witness:
  "equals \<lparr>mediaType = ToLower ''Application/Json'', params = fmempty\<rparr> (ToLower ''application/json'')
     (fmupd ''charset'' ''utf-8'' fmempty)
   \<and> equals htmlUtf8 ''text/html'' (fmupd ''charset'' ''utf-8'' fmempty)
   \<and> \<not> equals htmlUtf8 ''text/html'' fmempty"
  using equals_identical_directives [of htmlUtf8 "''text/html''" "fmupd ''charset'' ''utf-8'' fmempty"
      "''Application/Json''" fmempty "''application/json''" "fmupd ''charset'' ''utf-8'' fmempty"]
    equals_identical_directives [of htmlUtf8 "''text/html''" fmempty]
  by (simp add: htmlUtf8_def toLowerChar_def fmap_ext)

subsection \<open>C8: flushing before the decision\<close>

text \<open>
  Claim C8. While the writer has neither a compressor nor the passthrough flag, \<^verbatim>\<open>Flush\<close>
  returns the writer unchanged: the same pending status, the same buffer, and the same sink,
  which has received no call at all.
\<close>

theorem flush_before_commitment_is_noop:
  "gw w = None \<Longrightarrow> \<not> ignore w \<Longrightarrow> Flush E w = w"
  by (simp add: Flush_def)

text \<open>
  The theorem at a writer with status 404 pending and three bytes buffered, on a sink that is
  an \<^verbatim>\<open>http.Flusher\<close>.
\<close>

theorem flush_before_commitment_is_noop_witness:
  "Flush testEnv (snd (Write testEnv (WriteHeader (newWriter testCfg (okSink\<lparr>caps := {Flusher}\<rparr>)) 404) ''abc''))
     = snd (Write testEnv (WriteHeader (newWriter testCfg (okSink\<lparr>caps := {Flusher}\<rparr>)) 404) ''abc'')
   \<and> buf (snd (Write testEnv (WriteHeader (newWriter testCfg (okSink\<lparr>caps := {Flusher}\<rparr>)) 404) ''abc''))
     = Some ''abc''"
proof -
  have "gw (snd (Write testEnv (WriteHeader (newWriter testCfg (okSink\<lparr>caps := {Flusher}\<rparr>)) 404) ''abc'')) = None"
    "\<not> ignore (snd (Write testEnv (WriteHeader (newWriter testCfg (okSink\<lparr>caps := {Flusher}\<rparr>)) 404) ''abc''))"
    "buf (snd (Write testEnv (WriteHeader (newWriter testCfg (okSink\<lparr>caps := {Flusher}\<rparr>)) 404) ''abc'')) = Some ''abc''"
    by (simp_all add: model_defs double_defs)
  then show ?thesis
    using flush_before_commitment_is_noop [where E = testEnv] by simp
qed

subsection \<open>C9: optional capabilities of the wrapper\<close>

text \<open>
  Claim C9, as stated, fails: a sink with no optional capability at all gets a wrapper that
  is both an \<^verbatim>\<open>http.Flusher\<close> and an \<^verbatim>\<open>http.Hijacker\<close>.
\<close>

theorem wrapper_capabilities_counterexample:
  "caps okSink = {} \<and> implements (Config_ResponseWriter testCfg okSink) = {Flusher, Hijacker}"
  by (simp add: Config_ResponseWriter_def okSink_def)

text \<open>
  Claim C9, amended. The wrapper is an \<^verbatim>\<open>http.CloseNotifier\<close> exactly when the sink is one, and
  it is always an \<^verbatim>\<open>http.Flusher\<close> and an \<^verbatim>\<open>http.Hijacker\<close>. What the sink lacks shows when the
  method is called: \<^verbatim>\<open>Hijack\<close> on a sink that is no \<^verbatim>\<open>http.Hijacker\<close> returns the "not supported"
  error and leaves the writer as it was, and otherwise returns what the sink's \<^verbatim>\<open>Hijack\<close>
  returns; \<^verbatim>\<open>Flush\<close> on a sink that is no \<^verbatim>\<open>http.Flusher\<close> makes no call to the sink other than
  the writes of the compressor.
\<close>

theorem wrapper_capabilities:
  "implements (Config_ResponseWriter c s) = {Flusher, Hijacker} \<union> (caps s \<inter> {CloseNotifier})
   \<and> (Hijacker \<notin> caps (ResponseWriter w) \<longrightarrow> Hijack w = (Some ErrHijackNotSupported, w))
   \<and> (Hijacker \<in> caps (ResponseWriter w) \<longrightarrow>
        Hijack w = (hijackErr (ResponseWriter w),
                    w\<lparr>ResponseWriter := snd (sinkHijack (ResponseWriter w))\<rparr>))
   \<and> (Flusher \<notin> caps (ResponseWriter w) \<longrightarrow>
        (\<exists>ws. trace (ResponseWriter (Flush E w)) = trace (ResponseWriter w) @ map SWrite ws))"
proof -
  have fl: "\<exists>ws. trace (RW (Flush E w)) = trace (RW w) @ map SWrite ws"
    if nf: "Flusher \<notin> caps (RW w)"
  proof (cases "gw w")
    case None
    then show ?thesis using nf by (auto simp: Flush_def Let_def intro: exI [of _ "[]"])
  next
    case (Some g)
    obtain e g' s' where r: "runW (gzFlush (gzip E) g) (RW w) = ((e, g'), s')"
      by (metis prod.exhaust)
    from runW_frame [OF r] show ?thesis
      using Some r nf by (auto simp: Flush_def Let_def)
  qed
  show ?thesis
    using fl by (auto simp: Config_ResponseWriter_def Hijack_def sinkHijack_def)
qed

text \<open>
  The theorem at a sink that is only a close notifier, at one with no capability and at one
  that is only a hijacker.
\<close>

theorem wrapper_capabilities_witness:
  "implements (Config_ResponseWriter testCfg (okSink\<lparr>caps := {CloseNotifier}\<rparr>))
     = {Flusher, Hijacker, CloseNotifier}
   \<and> Hijack (newWriter testCfg okSink) = (Some ErrHijackNotSupported, newWriter testCfg okSink)
   \<and> fst (Hijack (newWriter testCfg (okSink\<lparr>caps := {Hijacker}\<rparr>))) = None"
  using wrapper_capabilities [where c = testCfg and s = "okSink\<lparr>caps := {CloseNotifier}\<rparr>"
      and w = "newWriter testCfg okSink"]
    wrapper_capabilities [where c = testCfg and s = okSink
      and w = "newWriter testCfg (okSink\<lparr>caps := {Hijacker}\<rparr>)"]
  by (auto simp: okSink_def)

subsection \<open>C10: a handler that writes nothing\<close>

text \<open>
  Claim C10. If the handler writes no byte and sets no status (it may call \<^verbatim>\<open>Flush\<close>, change
  headers, and call \<^verbatim>\<open>Write\<close> with an empty slice), then the close does nothing to the sink:
  the sink after the close is the sink before it, with no \<^verbatim>\<open>WriteHeader\<close>, no \<^verbatim>\<open>Write\<close> and no
  change of headers, and the close reports no error. If the handler did not call \<^verbatim>\<open>Write\<close> at
  all, the sink after the close is the sink the writer was built on, with the headers the
  handler gave it.
\<close>

theorem close_without_writes_leaves_sink_untouched:
  assumes "\<forall>x \<in> set cs. x = CallFlush \<or> x = CallWrite [] \<or> (\<exists>f. x = CallHeader f)"
  shows "case run E (newWriter c s) cs of (rs, w) \<Rightarrow>
         case Close E w of (err, w') \<Rightarrow>
           ResponseWriter w' = ResponseWriter w \<and> err = None
         \<and> (writes cs = [] \<longrightarrow> ResponseWriter w' = s\<lparr>header := handlerHeaders cs (header s)\<rparr>)"
proof -
  obtain rs w where rn: "run E (newWriter c s) cs = (rs, w)"
    by (cases "run E (newWriter c s) cs")
  have inv: "gw w = None \<and> code w = 0 \<and> buf w = None"
    using run_nothing [OF rn assms] by simp
  have cl: "Close E w = (None, if ignore w then w else w\<lparr>ignore := True\<rparr>)"
    using inv by (intro Close_nothing) simp_all
  have st: "statuses cs = []"
    using assms by (induction cs rule: statuses.induct) auto
  have "RW w = s\<lparr>header := handlerHeaders cs (header s)\<rparr>" if "writes cs = []"
    using run_without_writes [OF rn that st] by (simp add: setHeader_def)
  then show ?thesis
    by (auto simp: rn cl)
qed

text \<open>The theorem at a handler that only flushes, and at one that also writes an empty slice.\<close>

theorem close_without_writes_leaves_sink_untouched_witness:
  "ResponseWriter (snd (Close testEnv (snd (run testEnv (newWriter testCfg okSink) [CallFlush])))) = okSink
   \<and> ResponseWriter (snd (Close testEnv (snd (run testEnv (newWriter testCfg okSink)
        [CallWrite [], CallFlush])))) = okSink"
proof -
  have h: "\<forall>x \<in> set [CallFlush]. x = CallFlush \<or> x = CallWrite [] \<or> (\<exists>f. x = CallHeader f)"
    by simp
  have "ResponseWriter (snd (Close testEnv (snd (run testEnv (newWriter testCfg okSink)
        [CallWrite [], CallFlush])))) = okSink"
    by (simp add: model_defs double_defs)
  then show ?thesis
    using close_without_writes_leaves_sink_untouched [OF h, where E = testEnv and c = testCfg and s = okSink]
    by (simp add: split_beta Flush_def)
qed

end
